theory Spec2Isabelle
  imports Main
begin

section \<open>Data model\<close>

text \<open>
  The repository is the Go package \<open>docparser\<close>. Two revisions of \<open>docparser.go\<close> are
  present; the later one (with \<open>Documents\<close>, \<open>ErrorList\<close>, \<open>GetMapSlice\<close>, the
  \<open>Optional\<close> flag and \<open>CleanItem\<close> of \<open>PatternList\<close>) is the one embedded here, and the
  earlier one contributes \<open>GetFieldsSlice\<close> and its own \<open>PatternList.Search\<close>.

  \<open>Fields\<close> is \<open>map[string]interface{}\<close>. The dynamic values the package itself stores
  are strings and \<open>[]Fields\<close>; any other dynamic value (which a caller or a \<open>Clean\<close>
  function may store) is \<open>VOther\<close> with an opaque tag.
\<close>

datatype iface =
    VString string
  | VFieldsSlice "(string \<Rightarrow> iface option) list"
  | VOther nat

type_synonym Fields = "string \<Rightarrow> iface option"

text \<open>Run-time panics of the Go code that the embedding keeps as values.\<close>

datatype panic = IndexOutOfRange | InterfaceConversion

text \<open>
  Values of the interface \<open>error\<close>: \<open>*NoMatch\<close> with its two fields, the value built by
  \<open>fmt.Errorf\<close> (a fixed message) and \<open>*ErrorList\<close>.
\<close>

datatype error =
    NoMatch (Name: string) (Content: string)
  | ErrorString string
  | ErrorList "error list"

text \<open>
  A call of \<open>Search\<close> either panics or returns the pair \<open>(Fields, error)\<close>, where the
  error \<open>nil\<close> is \<open>None\<close>.
\<close>

type_synonym search_result = "panic + (Fields \<times> error option)"

text \<open>
  The interface \<open>Pattern\<close> has the single method \<open>Search(content)\<close>; a value of the
  interface is modelled by that method.
\<close>

type_synonym Pattern = "string \<Rightarrow> search_result"

subsection \<open>The regular-expression library\<close>

text \<open>
  \<open>*regexp.Regexp\<close> belongs to the Go standard library. The package uses four of its
  methods, and a compiled expression is modelled by what they return:
  \<open>SubexpNames()\<close>, \<open>FindStringSubmatch(s)\<close> (\<open>nil\<close> is \<open>None\<close>) and \<open>Split(s, -1)\<close> are
  fields; \<open>MatchString(s)\<close> holds exactly when \<open>FindStringSubmatch(s)\<close> is not \<open>nil\<close>.
\<close>

record Regexp =
  SubexpNames :: "string list"
  FindStringSubmatch :: "string \<Rightarrow> string list option"
  Split :: "string \<Rightarrow> string list"

definition MatchString :: "Regexp \<Rightarrow> string \<Rightarrow> bool" where
  "MatchString re s = (FindStringSubmatch re s \<noteq> None)"

text \<open>
  The library guarantees that a match slice has one entry per name of
  \<open>SubexpNames()\<close> (entry 0 is the whole match, whose name is the empty string).
\<close>

definition regexp_ok :: "Regexp \<Rightarrow> bool" where
  "regexp_ok re =
     (\<forall>s m. FindStringSubmatch re s = Some m \<longrightarrow> length m = length (SubexpNames re))"

section \<open>The operations of docparser.go\<close>

subsection \<open>regexGroups\<close>

text \<open>
  The loop \<open>for i, groupName := range re.SubexpNames()\<close> of \<open>regexGroups\<close>, from index
  \<open>i\<close> on: index 0 is skipped, any other index stores \<open>matches[i]\<close> under \<open>groupName\<close>;
  reading \<open>matches[i]\<close> out of range panics. (The source's variable \<open>fields\<close> is
  \<open>flds\<close> here.)
\<close>

fun regexGroups_loop :: "string list \<Rightarrow> nat \<Rightarrow> string list \<Rightarrow> Fields \<Rightarrow> panic + Fields" where
  "regexGroups_loop matches i [] flds = Inr flds"
| "regexGroups_loop matches i (groupName # names) flds =
     (if i = 0 then regexGroups_loop matches (Suc i) names flds
      else if i < length matches
        then regexGroups_loop matches (Suc i) names (flds(groupName \<mapsto> VString (matches ! i)))
      else Inl IndexOutOfRange)"

definition regexGroups :: "Regexp \<Rightarrow> string \<Rightarrow> panic + (Fields \<times> bool)" where
  "regexGroups re content =
     (if \<not> MatchString re content then Inr (Map.empty, False)
      else
        (case regexGroups_loop (case FindStringSubmatch re content of None \<Rightarrow> [] | Some m \<Rightarrow> m)
                0 (SubexpNames re) Map.empty of
           Inl p \<Rightarrow> Inl p
         | Inr flds \<Rightarrow> Inr (flds, True)))"

subsection \<open>PatternGroup\<close>

record PatternGroup =
  pg_Name :: string
  pg_Regex :: Regexp
  pg_Clean :: "(Fields \<Rightarrow> Fields) option"
  pg_Optional :: bool

definition PatternGroup_Search :: "PatternGroup \<Rightarrow> Pattern" where
  "PatternGroup_Search pg content =
     (case regexGroups (pg_Regex pg) content of
        Inl p \<Rightarrow> Inl p
      | Inr (flds, ok) \<Rightarrow>
          if \<not> ok then
            (if pg_Optional pg then Inr (Map.empty, None)
             else Inr (Map.empty, Some (NoMatch (pg_Name pg) content)))
          else
            (case pg_Clean pg of
               None \<Rightarrow> Inr (flds, None)
             | Some clean \<Rightarrow> Inr (clean flds, None)))"

subsection \<open>Fields\<close>

text \<open>
  \<open>Update\<close> assigns every entry of \<open>other\<close> into the receiver: the result is the
  receiver overridden by \<open>other\<close>. The receiver is returned instead of mutated.
\<close>

definition Update :: "Fields \<Rightarrow> Fields \<Rightarrow> Fields" where
  "Update f other = f ++ other"

definition GetString :: "Fields \<Rightarrow> string \<Rightarrow> string" where
  "GetString f key =
     (case f key of
        None \<Rightarrow> ''''
      | Some v \<Rightarrow> (case v of VString vs \<Rightarrow> vs | _ \<Rightarrow> ''''))"

text \<open>
  The inner loop of \<open>GetMapSlice\<close>, \<open>vs[i][key] = val.(string)\<close> for every entry of one
  item: the unchecked type assertion panics on a value that is not a string
  (\<open>holds_string\<close> is the dynamic type test).
\<close>

fun holds_string :: "iface \<Rightarrow> bool" where
  "holds_string (VString s) = True"
| "holds_string v = False"

definition GetMapSlice_item :: "Fields \<Rightarrow> panic + (string \<Rightarrow> string option)" where
  "GetMapSlice_item item =
     (if \<exists>val \<in> ran item. \<not> holds_string val then Inl InterfaceConversion
      else Inr (\<lambda>key. case item key of Some (VString s) \<Rightarrow> Some s | _ \<Rightarrow> None))"

fun GetMapSlice_loop :: "Fields list \<Rightarrow> panic + (string \<Rightarrow> string option) list" where
  "GetMapSlice_loop [] = Inr []"
| "GetMapSlice_loop (item # vf) =
     (case GetMapSlice_item item of
        Inl p \<Rightarrow> Inl p
      | Inr m \<Rightarrow> (case GetMapSlice_loop vf of Inl p \<Rightarrow> Inl p | Inr vs \<Rightarrow> Inr (m # vs)))"

definition GetMapSlice :: "Fields \<Rightarrow> string \<Rightarrow> panic + (string \<Rightarrow> string option) list" where
  "GetMapSlice f key =
     (case f key of
        None \<Rightarrow> Inr []
      | Some v \<Rightarrow> (case v of VFieldsSlice vf \<Rightarrow> GetMapSlice_loop vf | _ \<Rightarrow> Inr []))"

text \<open>\<open>GetFieldsSlice\<close> is the list accessor of the earlier revision.\<close>

definition GetFieldsSlice :: "Fields \<Rightarrow> string \<Rightarrow> Fields list" where
  "GetFieldsSlice f key =
     (case f key of
        None \<Rightarrow> []
      | Some v \<Rightarrow> (case v of VFieldsSlice vs \<Rightarrow> vs | _ \<Rightarrow> []))"

subsection \<open>Errors and their messages\<close>

text \<open>The verb \<open>%d\<close> of \<open>fmt\<close> on a non-negative \<open>int\<close>: the decimal digits.\<close>

fun itoa :: "nat \<Rightarrow> string" where
  "itoa n =
     (if n < 10 then [char_of (48 + n)]
      else itoa (n div 10) @ [char_of (48 + n mod 10)])"

text \<open>\<open>strings.Join(elems, sep)\<close>.\<close>

fun Join :: "string list \<Rightarrow> string \<Rightarrow> string" where
  "Join [] sep = ''''"
| "Join [e] sep = e"
| "Join (e # e' # elems) sep = e @ sep @ Join (e' # elems) sep"

text \<open>
  The method \<open>Error()\<close>. The verb \<open>%q\<close> of \<open>fmt\<close> (\<open>strconv.Quote\<close>, standard library)
  is the parameter \<open>quote\<close>. The message of \<open>NoMatch\<close> is the one of the later
  revision, which the test of \<open>Documents\<close> expects; the earlier revision, which has no
  \<open>Documents\<close>, prints the content as well.
\<close>

fun Error :: "(string \<Rightarrow> string) \<Rightarrow> error \<Rightarrow> string" where
  "Error quote (NoMatch name content) = ''No match for '' @ quote name"
| "Error quote (ErrorString s) = s"
| "Error quote (ErrorList el) = Join (map (Error quote) el) ''; ''"

subsection \<open>Document and Documents\<close>

text \<open>
  \<open>Document\<close> is \<open>[]Pattern\<close>. The loop of \<open>Document.Search\<close> over the patterns that
  remain, with the accumulator \<open>f\<close>.
\<close>

type_synonym Document = "Pattern list"

fun Document_loop :: "Document \<Rightarrow> string \<Rightarrow> Fields \<Rightarrow> search_result" where
  "Document_loop [] content f = Inr (f, None)"
| "Document_loop (p # d) content f =
     (case p content of
        Inl pn \<Rightarrow> Inl pn
      | Inr (pf, err) \<Rightarrow>
          (case err of
             Some e \<Rightarrow> Inr (Map.empty, Some e)
           | None \<Rightarrow> Document_loop d content (Update f pf)))"

definition Document_Search :: "Document \<Rightarrow> Pattern" where
  "Document_Search d content = Document_loop d content Map.empty"

text \<open>
  \<open>Documents\<close> is \<open>[]*Document\<close> (every pointer is taken to be non-nil). The loop of
  \<open>Documents.Search\<close> over the documents that remain, with the index \<open>i\<close> and \<open>errList\<close>.
\<close>

type_synonym Documents = "Document list"

fun Documents_loop ::
  "(string \<Rightarrow> string) \<Rightarrow> Documents \<Rightarrow> string \<Rightarrow> nat \<Rightarrow> error list \<Rightarrow> search_result" where
  "Documents_loop quote [] content i errList = Inr (Map.empty, Some (ErrorList errList))"
| "Documents_loop quote (doc # ds) content i errList =
     (case Document_Search doc content of
        Inl pn \<Rightarrow> Inl pn
      | Inr (flds, err) \<Rightarrow>
          (case err of
             None \<Rightarrow> Inr (flds, None)
           | Some e \<Rightarrow>
               Documents_loop quote ds content (Suc i)
                 (errList @ [ErrorString (''Document '' @ itoa i @ '': '' @ Error quote e)])))"

definition Documents_Search :: "(string \<Rightarrow> string) \<Rightarrow> Documents \<Rightarrow> Pattern" where
  "Documents_Search quote ds content = Documents_loop quote ds content 0 []"

subsection \<open>PatternList\<close>

record PatternList =
  pl_Name :: string
  pl_ListRegex :: Regexp
  pl_SplitRegex :: Regexp
  pl_ItemRegex :: Regexp
  pl_CleanItem :: "(Fields \<Rightarrow> Fields) option"
  pl_Optional :: bool

text \<open>Reading \<open>xs[i]\<close> of a slice panics out of range.\<close>

definition index :: "'a list \<Rightarrow> nat \<Rightarrow> panic + 'a" where
  "index xs i = (if i < length xs then Inr (xs ! i) else Inl IndexOutOfRange)"

text \<open>
  The loop \<open>for i, itemText := range itemsTexts\<close> of \<open>PatternList.Search\<close> over the item
  texts that remain, followed by the final \<open>return Fields{listName: items}, nil\<close>.
\<close>

fun PatternList_loop ::
  "PatternList \<Rightarrow> string \<Rightarrow> nat \<Rightarrow> string list \<Rightarrow> Fields list \<Rightarrow> search_result" where
  "PatternList_loop pl listName i [] items = Inr ([listName \<mapsto> VFieldsSlice items], None)"
| "PatternList_loop pl listName i (itemText # itemsTexts) items =
     (if itemText = '''' then PatternList_loop pl listName (Suc i) itemsTexts items
      else
        (case regexGroups (pl_ItemRegex pl) itemText of
           Inl p \<Rightarrow> Inl p
         | Inr (flds, ok) \<Rightarrow>
             if \<not> ok then
               Inr (Map.empty, Some (NoMatch (pl_Name pl @ '' - item '' @ itoa i) itemText))
             else
               PatternList_loop pl listName (Suc i) itemsTexts
                 (items @ [case pl_CleanItem pl of None \<Rightarrow> flds | Some clean \<Rightarrow> clean flds])))"

definition PatternList_Search :: "PatternList \<Rightarrow> Pattern" where
  "PatternList_Search pl content =
     (if \<not> MatchString (pl_ListRegex pl) content then
        (if pl_Optional pl then Inr (Map.empty, None)
         else Inr (Map.empty, Some (NoMatch (pl_Name pl @ '' - list regex'') content)))
      else
        (case index (SubexpNames (pl_ListRegex pl)) 1 of
           Inl p \<Rightarrow> Inl p
         | Inr listName \<Rightarrow>
             (case index (case FindStringSubmatch (pl_ListRegex pl) content of
                            None \<Rightarrow> [] | Some m \<Rightarrow> m) 1 of
                Inl p \<Rightarrow> Inl p
              | Inr listText \<Rightarrow>
                  PatternList_loop pl listName 0 (Split (pl_SplitRegex pl) listText) [])))"

text \<open>
  \<open>PatternList.Search\<close> of the earlier revision: the struct has neither \<open>Optional\<close> nor
  \<open>CleanItem\<close>, a list regex that does not match is always an error, and the loop is
  the one above without the cleaning step.
\<close>

definition PatternList_Search_early :: "PatternList \<Rightarrow> Pattern" where
  "PatternList_Search_early pl content =
     (if \<not> MatchString (pl_ListRegex pl) content then
        Inr (Map.empty, Some (NoMatch (pl_Name pl @ '' - list regex'') content))
      else
        (case index (SubexpNames (pl_ListRegex pl)) 1 of
           Inl p \<Rightarrow> Inl p
         | Inr listName \<Rightarrow>
             (case index (case FindStringSubmatch (pl_ListRegex pl) content of
                            None \<Rightarrow> [] | Some m \<Rightarrow> m) 1 of
                Inl p \<Rightarrow> Inl p
              | Inr listText \<Rightarrow>
                  PatternList_loop (pl\<lparr>pl_CleanItem := None\<rparr>) listName 0
                    (Split (pl_SplitRegex pl) listText) [])))"

section \<open>Auxiliary functions of the statements\<close>

text \<open>
  What \<open>regexGroups\<close> stores for a match slice \<open>matches\<close> of an expression with the
  names \<open>names\<close>: the entries after the first, each under its name, in order (a later
  entry replaces an earlier one of the same name).
\<close>

definition store_group :: "Fields \<Rightarrow> string \<times> string \<Rightarrow> Fields" where
  "store_group f nm = f(fst nm \<mapsto> VString (snd nm))"

definition group_fields :: "string list \<Rightarrow> string list \<Rightarrow> Fields" where
  "group_fields names matches = foldl store_group Map.empty (zip (tl names) (tl matches))"


text \<open>The message that \<open>Documents.Search\<close> records for the document of index \<open>i\<close>.\<close>

definition document_message :: "(string \<Rightarrow> string) \<Rightarrow> nat \<times> error \<Rightarrow> string" where
  "document_message quote ie = ''Document '' @ itoa (fst ie) @ '': '' @ Error quote (snd ie)"

declare itoa.simps [simp del]

section \<open>Compiled expressions used in the examples\<close>

text \<open>
  Each record below gives the observable behaviour of one compiled Go expression
  (RE2 syntax: \<open>.\<close> does not match a newline unless the flag \<open>s\<close> is set, and without
  the flag \<open>m\<close> the anchors \<open>^\<close> and \<open>$\<close> match at the two ends of the text only).

  \<open>split_on c s\<close> cuts \<open>s\<close> at every occurrence of the character \<open>c\<close>, as \<open>Split(s, -1)\<close>
  does for an expression that matches exactly that character: a text with \<open>n\<close>
  occurrences gives \<open>n + 1\<close> pieces, the empty ones included.
\<close>

fun split_on :: "char \<Rightarrow> string \<Rightarrow> string list" where
  "split_on c [] = [[]]"
| "split_on c (x # xs) =
     (if x = c then [] # split_on c xs
      else (x # hd (split_on c xs)) # tl (split_on c xs))"

text \<open>
  \<open>Split(s, -1)\<close> for an expression that can only match the whole, non-empty text:
  the two empty pieces around the match, or the text itself when there is no match.
\<close>

definition split_whole :: "bool \<Rightarrow> string \<Rightarrow> string list" where
  "split_whole matched s = (if s = [] then [[]] else if matched then [[], []] else [s])"

text \<open>The expression \<^verbatim>\<open>\n\<close> (no capture group).\<close>

definition re_newline :: Regexp where
  "re_newline =
     \<lparr> SubexpNames = [''''],
       FindStringSubmatch = (\<lambda>s. if CHR 0x0A \<in> set s then Some [[CHR 0x0A]] else None),
       Split = split_on (CHR 0x0A) \<rparr>"

text \<open>The expression \<^verbatim>\<open>^- (?P<v>.*)$\<close>.\<close>

definition re_item :: Regexp where
  "re_item =
     \<lparr> SubexpNames = ['''', ''v''],
       FindStringSubmatch =
         (\<lambda>s. if take 2 s = ''- '' \<and> CHR 0x0A \<notin> set s then Some [s, drop 2 s] else None),
       Split = (\<lambda>s. split_whole (take 2 s = ''- '' \<and> CHR 0x0A \<notin> set s) s) \<rparr>"

text \<open>The expression \<^verbatim>\<open>(?s)^L:(?P<items>.*)$\<close>.\<close>

definition re_list :: Regexp where
  "re_list =
     \<lparr> SubexpNames = ['''', ''items''],
       FindStringSubmatch = (\<lambda>s. if take 2 s = ''L:'' then Some [s, drop 2 s] else None),
       Split = (\<lambda>s. split_whole (take 2 s = ''L:'') s) \<rparr>"

text \<open>The expression \<^verbatim>\<open>(?s)^L:.*$\<close> (no capture group).\<close>

definition re_list_nogroup :: Regexp where
  "re_list_nogroup =
     \<lparr> SubexpNames = [''''],
       FindStringSubmatch = (\<lambda>s. if take 2 s = ''L:'' then Some [s] else None),
       Split = (\<lambda>s. split_whole (take 2 s = ''L:'') s) \<rparr>"

text \<open>
  The expression \<^verbatim>\<open>(?s)^(- x):L:(?P<items>.*)$\<close>: an unnamed group, then the only
  named one.
\<close>

definition re_list_unnamed_first :: Regexp where
  "re_list_unnamed_first =
     \<lparr> SubexpNames = ['''', '''', ''items''],
       FindStringSubmatch =
         (\<lambda>s. if take 6 s = ''- x:L:'' then Some [s, ''- x'', drop 6 s] else None),
       Split = (\<lambda>s. split_whole (take 6 s = ''- x:L:'') s) \<rparr>"

text \<open>
  The list pattern of the examples: the list body is cut at newlines and every item
  has the form \<^verbatim>\<open>- <v>\<close>.
\<close>

definition example_list :: "Regexp \<Rightarrow> bool \<Rightarrow> PatternList" where
  "example_list listRegex optional =
     \<lparr> pl_Name = ''Items'', pl_ListRegex = listRegex, pl_SplitRegex = re_newline,
       pl_ItemRegex = re_item, pl_CleanItem = None, pl_Optional = optional \<rparr>"

definition example_group :: "string \<Rightarrow> Regexp \<Rightarrow> bool \<Rightarrow> PatternGroup" where
  "example_group name regex optional =
     \<lparr> pg_Name = name, pg_Regex = regex, pg_Clean = None, pg_Optional = optional \<rparr>"

section \<open>Search on an explicit heap\<close>

text \<open>
  In Go a value of type \<open>Fields\<close> is a reference to a map object, and the methods
  \<open>Search\<close> have pointer receivers. To state what a call can retain for the next
  one, the two \<open>Search\<close> methods of the later revision and \<open>regexGroups\<close> are embedded
  a second time over a state that holds everything they could assign: the struct
  the receiver points to, the map objects allocated so far and the next unused
  address. A literal \<open>Fields{}\<close> allocates a map object, \<open>f[k] = v\<close> assigns into the
  object at an address, and a slice \<open>[]Fields\<close> holds addresses.
\<close>

type_synonym addr = nat

datatype ref_value = RString string | RFieldsSlice "addr list" | ROther nat

type_synonym map_object = "string \<Rightarrow> ref_value option"

record 'r heap_state =
  receiver :: 'r
  objects :: "addr \<Rightarrow> map_object option"
  next_addr :: addr

text \<open>
  The two structs. A clean transform is taken to be a function of the content of the
  map it receives, whose result replaces that content (the transform of the
  package's example assigns into the map it received and returns it).
\<close>

record HeapPatternGroup =
  hg_Name :: string
  hg_Regex :: Regexp
  hg_Clean :: "(map_object \<Rightarrow> map_object) option"
  hg_Optional :: bool

record HeapPatternList =
  hl_Name :: string
  hl_ListRegex :: Regexp
  hl_SplitRegex :: Regexp
  hl_ItemRegex :: Regexp
  hl_CleanItem :: "(map_object \<Rightarrow> map_object) option"
  hl_Optional :: bool

text \<open>The literal \<open>Fields{}\<close>, the assignment \<open>f[key] = v\<close> and the call \<open>f = clean(f)\<close>.\<close>

definition make_Fields :: "'r heap_state \<Rightarrow> addr \<times> 'r heap_state" where
  "make_Fields s =
     (next_addr s,
      s\<lparr>objects := (objects s)(next_addr s \<mapsto> Map.empty), next_addr := Suc (next_addr s)\<rparr>)"

definition assign_key :: "addr \<Rightarrow> string \<Rightarrow> ref_value \<Rightarrow> 'r heap_state \<Rightarrow> 'r heap_state" where
  "assign_key a key v s =
     (case objects s a of
        None \<Rightarrow> s
      | Some m \<Rightarrow> s\<lparr>objects := (objects s)(a \<mapsto> m(key \<mapsto> v))\<rparr>)"

definition call_clean :: "(map_object \<Rightarrow> map_object) \<Rightarrow> addr \<Rightarrow> 'r heap_state \<Rightarrow> 'r heap_state" where
  "call_clean clean a s =
     (case objects s a of
        None \<Rightarrow> s
      | Some m \<Rightarrow> s\<lparr>objects := (objects s)(a \<mapsto> clean m)\<rparr>)"

fun regexGroups_loop_heap ::
  "string list \<Rightarrow> nat \<Rightarrow> string list \<Rightarrow> addr \<Rightarrow> 'r heap_state \<Rightarrow> panic option \<times> 'r heap_state" where
  "regexGroups_loop_heap matches i [] a s = (None, s)"
| "regexGroups_loop_heap matches i (groupName # names) a s =
     (if i = 0 then regexGroups_loop_heap matches (Suc i) names a s
      else if i < length matches
        then regexGroups_loop_heap matches (Suc i) names a
               (assign_key a groupName (RString (matches ! i)) s)
      else (Some IndexOutOfRange, s))"

definition regexGroups_heap ::
  "Regexp \<Rightarrow> string \<Rightarrow> 'r heap_state \<Rightarrow> (panic + addr \<times> bool) \<times> 'r heap_state" where
  "regexGroups_heap re content s =
     (if \<not> MatchString re content then
        (case make_Fields s of (a, s1) \<Rightarrow> (Inr (a, False), s1))
      else
        (case make_Fields s of
           (a, s1) \<Rightarrow>
             (case regexGroups_loop_heap
                     (case FindStringSubmatch re content of None \<Rightarrow> [] | Some m \<Rightarrow> m)
                     0 (SubexpNames re) a s1 of
                (Some p, s2) \<Rightarrow> (Inl p, s2)
              | (None, s2) \<Rightarrow> (Inr (a, True), s2))))"

type_synonym 'r heap_search = "(panic + addr \<times> error option) \<times> 'r heap_state"

definition PatternGroup_Search_heap ::
  "string \<Rightarrow> HeapPatternGroup heap_state \<Rightarrow> HeapPatternGroup heap_search" where
  "PatternGroup_Search_heap content s =
     (case regexGroups_heap (hg_Regex (receiver s)) content s of
        (Inl p, s1) \<Rightarrow> (Inl p, s1)
      | (Inr (a, ok), s1) \<Rightarrow>
          if \<not> ok then
            (if hg_Optional (receiver s1)
             then (case make_Fields s1 of (e, s2) \<Rightarrow> (Inr (e, None), s2))
             else (case make_Fields s1 of
                     (e, s2) \<Rightarrow> (Inr (e, Some (NoMatch (hg_Name (receiver s1)) content)), s2)))
          else
            (case hg_Clean (receiver s1) of
               None \<Rightarrow> (Inr (a, None), s1)
             | Some clean \<Rightarrow> (Inr (a, None), call_clean clean a s1)))"

fun PatternList_loop_heap ::
  "string \<Rightarrow> nat \<Rightarrow> string list \<Rightarrow> addr list \<Rightarrow> HeapPatternList heap_state
     \<Rightarrow> HeapPatternList heap_search" where
  "PatternList_loop_heap listName i [] items s =
     (case make_Fields s of
        (a, s1) \<Rightarrow> (Inr (a, None), assign_key a listName (RFieldsSlice items) s1))"
| "PatternList_loop_heap listName i (itemText # itemsTexts) items s =
     (if itemText = '''' then PatternList_loop_heap listName (Suc i) itemsTexts items s
      else
        (case regexGroups_heap (hl_ItemRegex (receiver s)) itemText s of
           (Inl p, s1) \<Rightarrow> (Inl p, s1)
         | (Inr (a, ok), s1) \<Rightarrow>
             if \<not> ok then
               (case make_Fields s1 of
                  (e, s2) \<Rightarrow>
                    (Inr (e, Some (NoMatch (hl_Name (receiver s1) @ '' - item '' @ itoa i) itemText)),
                     s2))
             else
               PatternList_loop_heap listName (Suc i) itemsTexts (items @ [a])
                 (case hl_CleanItem (receiver s1) of
                    None \<Rightarrow> s1
                  | Some clean \<Rightarrow> call_clean clean a s1)))"

definition PatternList_Search_heap ::
  "string \<Rightarrow> HeapPatternList heap_state \<Rightarrow> HeapPatternList heap_search" where
  "PatternList_Search_heap content s =
     (if \<not> MatchString (hl_ListRegex (receiver s)) content then
        (if hl_Optional (receiver s)
         then (case make_Fields s of (e, s1) \<Rightarrow> (Inr (e, None), s1))
         else (case make_Fields s of
                 (e, s1) \<Rightarrow>
                   (Inr (e, Some (NoMatch (hl_Name (receiver s) @ '' - list regex'') content)), s1)))
      else
        (case index (SubexpNames (hl_ListRegex (receiver s))) 1 of
           Inl p \<Rightarrow> (Inl p, s)
         | Inr listName \<Rightarrow>
             (case index (case FindStringSubmatch (hl_ListRegex (receiver s)) content of
                            None \<Rightarrow> [] | Some m \<Rightarrow> m) 1 of
                Inl p \<Rightarrow> (Inl p, s)
              | Inr listText \<Rightarrow>
                  PatternList_loop_heap listName 0
                    (Split (hl_SplitRegex (receiver s)) listText) [] s)))"

text \<open>
  What a caller sees of a result in a state: the panic, or the error together with
  the content of the returned map object, in which a slice is read as the contents
  of the map objects it refers to.
\<close>

datatype seen_value = SeenString string | SeenSlice "map_object option list" | SeenOther nat

fun see_value :: "'r heap_state \<Rightarrow> ref_value \<Rightarrow> seen_value" where
  "see_value s (RString x) = SeenString x"
| "see_value s (RFieldsSlice items) = SeenSlice (map (objects s) items)"
| "see_value s (ROther n) = SeenOther n"

definition see_Fields :: "'r heap_state \<Rightarrow> addr \<Rightarrow> (string \<Rightarrow> seen_value option) option" where
  "see_Fields s a =
     (case objects s a of
        None \<Rightarrow> None
      | Some m \<Rightarrow> Some (\<lambda>key. case m key of None \<Rightarrow> None | Some v \<Rightarrow> Some (see_value s v)))"

fun see_result ::
  "'r heap_state \<Rightarrow> panic + addr \<times> error option
     \<Rightarrow> panic + (string \<Rightarrow> seen_value option) option \<times> error option" where
  "see_result s (Inl p) = Inl p"
| "see_result s (Inr (a, err)) = Inr (see_Fields s a, err)"

text \<open>
  Two calls of a \<open>Search\<close> method on the same receiver with the same content, the
  second in the state that the first one left. The outcome is what the caller holds
  after the second call: both results as seen in the final state, the two results
  themselves and the final state.
\<close>

definition search_twice ::
  "(string \<Rightarrow> 'r heap_state \<Rightarrow> 'r heap_search) \<Rightarrow> string \<Rightarrow> 'r heap_state
     \<Rightarrow> ((panic + addr \<times> error option) \<times> (panic + addr \<times> error option)) \<times> 'r heap_state" where
  "search_twice search content s =
     (case search content s of
        (r1, s1) \<Rightarrow> (case search content s1 of (r2, s2) \<Rightarrow> ((r1, r2), s2)))"

text \<open>
  A call leaves a state \<open>s\<close> untouched when, in the state \<open>s'\<close> it ends in, the receiver
  struct is the one of \<open>s\<close> and every map object allocated in \<open>s\<close> has the content it
  had.
\<close>

definition untouched :: "'r heap_state \<Rightarrow> 'r heap_state \<Rightarrow> bool" where
  "untouched s s' =
     (receiver s' = receiver s \<and> next_addr s \<le> next_addr s' \<and>
      (\<forall>a<next_addr s. objects s' a = objects s a))"

text \<open>
  The forms of a run used in the proofs. An address is new in a run from \<open>s\<close> to \<open>s'\<close>
  when it was allocated in between. A run of the group search has the outcome \<open>out\<close>
  when it leaves \<open>s\<close> untouched and either panics or returns, with the error of \<open>out\<close>,
  a new map object with the content of \<open>out\<close>. A run of the list search returns a new
  map object that is either empty or holds, under \<open>listName\<close>, the slice of the \<open>items\<close>
  it started with followed by new map objects with the contents of \<open>out\<close>.
\<close>

definition new_in :: "'r heap_state \<Rightarrow> 'r heap_state \<Rightarrow> addr \<Rightarrow> bool" where
  "new_in s s' a = (next_addr s \<le> a \<and> a < next_addr s')"

definition group_run ::
  "panic + error option \<times> map_object \<Rightarrow> 'r heap_state \<Rightarrow> 'r heap_search \<Rightarrow> bool" where
  "group_run out s run =
     (untouched s (snd run) \<and>
      (case out of
         Inl p \<Rightarrow> fst run = Inl p
       | Inr (err, m) \<Rightarrow>
           (\<exists>a. fst run = Inr (a, err) \<and> new_in s (snd run) a \<and> objects (snd run) a = Some m)))"

definition list_run ::
  "string \<Rightarrow> panic + error option \<times> map_object option list option \<Rightarrow> addr list
     \<Rightarrow> 'r heap_state \<Rightarrow> 'r heap_search \<Rightarrow> bool" where
  "list_run listName out items s run =
     (untouched s (snd run) \<and>
      (case out of
         Inl p \<Rightarrow> fst run = Inl p
       | Inr (err, shape) \<Rightarrow>
           (\<exists>a. fst run = Inr (a, err) \<and> new_in s (snd run) a \<and>
              (case shape of
                 None \<Rightarrow> objects (snd run) a = Some Map.empty
               | Some contents \<Rightarrow>
                   (\<exists>new. objects (snd run) a = Some [listName \<mapsto> RFieldsSlice (items @ new)] \<and>
                      (\<forall>b \<in> set new. new_in s (snd run) b) \<and>
                      map (objects (snd run)) new = contents)))))"

text \<open>What a caller sees of a run of the list search with the outcome \<open>out\<close>.\<close>

fun seen_list_outcome ::
  "string \<Rightarrow> panic + error option \<times> map_object option list option
     \<Rightarrow> panic + (string \<Rightarrow> seen_value option) option \<times> error option" where
  "seen_list_outcome listName (Inl p) = Inl p"
| "seen_list_outcome listName (Inr (err, None)) = Inr (Some Map.empty, err)"
| "seen_list_outcome listName (Inr (err, Some contents)) =
     Inr (Some [listName \<mapsto> SeenSlice contents], err)"

text \<open>The address of the map object that a result returns, when it returns one.\<close>

fun result_addr :: "panic + addr \<times> error option \<Rightarrow> addr option" where
  "result_addr (Inl p) = None"
| "result_addr (Inr (a, err)) = Some a"

text \<open>
  The content of the map object that a result returns, not read through; and the
  content that a run of the group search with the outcome \<open>out\<close> returns.
\<close>

fun object_of_result ::
  "'r heap_state \<Rightarrow> panic + addr \<times> error option \<Rightarrow> panic + map_object option \<times> error option" where
  "object_of_result s (Inl p) = Inl p"
| "object_of_result s (Inr (a, err)) = Inr (objects s a, err)"

fun object_group_outcome ::
  "panic + error option \<times> map_object \<Rightarrow> panic + map_object option \<times> error option" where
  "object_group_outcome (Inl p) = Inl p"
| "object_group_outcome (Inr (err, m)) = Inr (Some m, err)"

text \<open>The states of the examples: no map object allocated yet.\<close>

definition empty_heap :: "'r \<Rightarrow> 'r heap_state" where
  "empty_heap r = \<lparr> receiver = r, objects = (\<lambda>a. None), next_addr = 0 \<rparr>"

definition example_heap_group :: HeapPatternGroup where
  "example_heap_group =
     \<lparr> hg_Name = ''Item'', hg_Regex = re_item, hg_Clean = None, hg_Optional = False \<rparr>"

definition example_heap_list :: HeapPatternList where
  "example_heap_list =
     \<lparr> hl_Name = ''Items'', hl_ListRegex = re_list, hl_SplitRegex = re_newline,
       hl_ItemRegex = re_item, hl_CleanItem = None, hl_Optional = False \<rparr>"


section \<open>Properties\<close>

subsection \<open>regexGroups on an expression that respects the arity of its match slices\<close>

lemma store_group_pair: "store_group f (n, m) = f(n \<mapsto> VString m)"
  by (simp add: store_group_def)

lemma regexGroups_loop_ok:
  "0 < i \<Longrightarrow> i + length names \<le> length matches \<Longrightarrow>
   regexGroups_loop matches i names flds =
     Inr (foldl store_group flds (zip names (drop i matches)))"
proof (induction names arbitrary: i flds)
  case Nil
  then show ?case by simp
next
  case (Cons n ns)
  then have lt: "i < length matches" by simp
  have d: "drop i matches = matches ! i # drop (Suc i) matches"
    using lt by (simp add: Cons_nth_drop_Suc)
  show ?case using Cons lt by (simp add: d store_group_pair fun_upd_def)
qed

lemma regexGroups_match:
  assumes "regexp_ok re" and "FindStringSubmatch re s = Some m"
  shows "regexGroups re s = Inr (group_fields (SubexpNames re) m, True)"
proof -
  have len: "length m = length (SubexpNames re)"
    using assms by (simp add: regexp_ok_def)
  show ?thesis
  proof (cases "SubexpNames re")
    case Nil
    with len assms show ?thesis
      by (simp add: regexGroups_def MatchString_def group_fields_def)
  next
    case (Cons n ns)
    with len have "Suc 0 + length ns \<le> length m" by simp
    then have "regexGroups_loop m (Suc 0) ns Map.empty =
        Inr (foldl store_group Map.empty (zip ns (drop (Suc 0) m)))"
      by (intro regexGroups_loop_ok) simp_all
    with Cons assms show ?thesis
      by (simp add: regexGroups_def MatchString_def group_fields_def drop_Suc)
  qed
qed

lemma regexGroups_nomatch:
  "FindStringSubmatch re s = None \<Longrightarrow> regexGroups re s = Inr (Map.empty, False)"
  by (simp add: regexGroups_def MatchString_def)

lemma dom_store_group: "dom (store_group f nm) = insert (fst nm) (dom f)"
  by (simp add: store_group_def)

lemma foldl_store_dom:
  "dom (foldl store_group f xs) = dom f \<union> fst ` set xs"
  by (induction xs arbitrary: f) (auto simp: dom_store_group)

lemma group_fields_dom:
  "length names = length matches \<Longrightarrow> dom (group_fields names matches) = set (tl names)"
proof -
  assume "length names = length matches"
  then have "map fst (zip (tl names) (tl matches)) = tl names" by simp
  then have "fst ` set (zip (tl names) (tl matches)) = set (tl names)"
    by (metis set_map)
  then show ?thesis by (simp add: group_fields_def foldl_store_dom)
qed


lemma store_group_apply:
  "store_group f nm k = (if k = fst nm then Some (VString (snd nm)) else f k)"
  by (simp add: store_group_def)

lemma foldl_store_absent:
  "n \<notin> fst ` set xs \<Longrightarrow> foldl store_group f xs n = f n"
proof (induction xs arbitrary: f)
  case Nil
  then show ?case by simp
next
  case (Cons x xs)
  then have "foldl store_group (store_group f x) xs n = store_group f x n" by simp
  moreover have "store_group f x n = f n" using Cons.prems by (simp add: store_group_apply)
  ultimately show ?case by simp
qed

lemma foldl_store_lookup:
  "distinct (map fst xs) \<Longrightarrow> (n, m) \<in> set xs \<Longrightarrow>
   foldl store_group f xs n = Some (VString m)"
proof (induction xs arbitrary: f)
  case Nil
  then show ?case by simp
next
  case (Cons x xs)
  show ?case
  proof (cases "x = (n, m)")
    case True
    with Cons.prems(1) have "n \<notin> fst ` set xs" by auto
    then have "foldl store_group (store_group f x) xs n = store_group f x n"
      by (rule foldl_store_absent)
    moreover have "store_group f x n = Some (VString m)"
      using True by (simp add: store_group_apply)
    ultimately show ?thesis by simp
  next
    case False
    with Cons.prems have "distinct (map fst xs)" "(n, m) \<in> set xs" by auto
    then have "foldl store_group (store_group f x) xs n = Some (VString m)"
      by (rule Cons.IH)
    then show ?thesis by simp
  qed
qed

lemma group_fields_lookup:
  assumes "length names = length matches" and "distinct (tl names)"
    and "0 < i" and "i < length names"
  shows "group_fields names matches (names ! i) = Some (VString (matches ! i))"
proof -
  obtain j where j: "i = Suc j" using assms(3) by (cases i) auto
  have len: "length (tl names) = length (tl matches)" using assms(1) by simp
  have jl: "j < length (tl names)" using assms(4) j by simp
  have n: "tl names ! j = names ! i" using jl j by (simp add: nth_tl)
  have m: "tl matches ! j = matches ! i" using jl len j by (simp add: nth_tl)
  have "(tl names ! j, tl matches ! j) \<in> set (zip (tl names) (tl matches))"
    using jl len by (metis in_set_conv_nth length_zip min.idem nth_zip)
  moreover have "distinct (map fst (zip (tl names) (tl matches)))"
    using assms(2) len by simp
  ultimately have "foldl store_group Map.empty (zip (tl names) (tl matches))
      (tl names ! j) = Some (VString (tl matches ! j))"
    by (intro foldl_store_lookup)
  then show ?thesis by (simp add: group_fields_def n m)
qed

subsection \<open>PatternGroup.Search without a match\<close>

text \<open>
  Claim C6. When the regex of a \<open>PatternGroup\<close> does not match the content,
  \<open>Search\<close> returns the empty Field Map with no error if \<open>Optional\<close> is set, and the
  empty Field Map with the error \<open>NoMatch\<close> holding the name of the pattern and the
  content otherwise.
\<close>

theorem PatternGroup_Search_no_match:
  "\<not> MatchString (pg_Regex pg) content \<Longrightarrow>
   PatternGroup_Search pg content =
     (if pg_Optional pg then Inr (Map.empty, None)
      else Inr (Map.empty, Some (NoMatch (pg_Name pg) content)))"
  by (simp add: PatternGroup_Search_def regexGroups_def)

theorem PatternGroup_Search_no_match_witness:
  "\<not> MatchString re_list ''- a'' \<and>
   PatternGroup_Search (example_group ''Name'' re_list True) ''- a'' = Inr (Map.empty, None) \<and>
   PatternGroup_Search (example_group ''Name'' re_list False) ''- a'' =
     Inr (Map.empty, Some (NoMatch ''Name'' ''- a''))"
proof -
  have h: "\<not> MatchString re_list ''- a''"
    by (simp add: MatchString_def re_list_def)
  have t: "\<not> MatchString (pg_Regex (example_group ''Name'' re_list True)) ''- a''"
    using h by (simp add: example_group_def)
  have f: "\<not> MatchString (pg_Regex (example_group ''Name'' re_list False)) ''- a''"
    using h by (simp add: example_group_def)
  show ?thesis
    using h PatternGroup_Search_no_match [OF t] PatternGroup_Search_no_match [OF f]
    by (simp add: example_group_def)
qed

lemma example_group_item:
  "PatternGroup_Search (example_group name re_item opt) ''- a'' = Inr ([''v'' \<mapsto> VString ''a''], None)"
  by (simp add: PatternGroup_Search_def regexGroups_def MatchString_def re_item_def example_group_def)

lemma example_group_item_clean:
  "PatternGroup_Search
     ((example_group name re_item opt)\<lparr>pg_Clean := Some (\<lambda>f. f(''v'' \<mapsto> VString ''z''))\<rparr>) ''- a''
   = Inr ([''v'' \<mapsto> VString ''z''], None)"
  by (simp add: PatternGroup_Search_def regexGroups_def MatchString_def re_item_def example_group_def)

lemma example_group_list_fails:
  "PatternGroup_Search (example_group name re_list False) ''- a'' =
     Inr (Map.empty, Some (NoMatch name ''- a''))"
  by (simp add: PatternGroup_Search_def regexGroups_def MatchString_def re_list_def example_group_def)

subsection \<open>Document.Search\<close>

lemma Update_apply:
  "Update f other k = (case other k of None \<Rightarrow> f k | Some v \<Rightarrow> Some v)"
  by (simp add: Update_def map_add_def)

lemma foldl_Update_absent:
  "\<forall>pf \<in> set pfs. pf k = None \<Longrightarrow> foldl Update f pfs k = f k"
  by (induction pfs arbitrary: f) (simp_all add: Update_apply)

lemma foldl_Update_last:
  "i < length pfs \<Longrightarrow> (pfs ! i) k = Some v \<Longrightarrow>
   \<forall>j. i < j \<and> j < length pfs \<longrightarrow> (pfs ! j) k = None \<Longrightarrow>
   foldl Update f pfs k = Some v"
proof (induction pfs arbitrary: f i)
  case Nil
  then show ?case by simp
next
  case (Cons pf pfs)
  show ?case
  proof (cases i)
    case 0
    have "\<forall>g \<in> set pfs. g k = None"
    proof
      fix g assume "g \<in> set pfs"
      then obtain j where "j < length pfs" "pfs ! j = g" by (auto simp: in_set_conv_nth)
      with Cons.prems(3) 0 show "g k = None" by (metis length_Cons not_less_eq nth_Cons_Suc zero_less_Suc)
    qed
    then have "foldl Update (Update f pf) pfs k = Update f pf k"
      by (rule foldl_Update_absent)
    moreover have "Update f pf k = Some v"
      using Cons.prems(2) 0 by (simp add: Update_apply)
    ultimately show ?thesis by simp
  next
    case (Suc i')
    have "foldl Update (Update f pf) pfs k = Some v"
    proof (rule Cons.IH)
      show "i' < length pfs" using Cons.prems Suc by simp
      show "(pfs ! i') k = Some v" using Cons.prems Suc by simp
      show "\<forall>j. i' < j \<and> j < length pfs \<longrightarrow> (pfs ! j) k = None"
      proof (intro allI impI)
        fix j assume "i' < j \<and> j < length pfs"
        then have "i < Suc j \<and> Suc j < length (pf # pfs)" using Suc by simp
        with Cons.prems(3) have "((pf # pfs) ! Suc j) k = None" by blast
        then show "(pfs ! j) k = None" by simp
      qed
    qed
    then show ?thesis by simp
  qed
qed

lemma Document_loop_fail:
  "i < length d \<Longrightarrow> (d ! i) content = Inr (pf, Some err) \<Longrightarrow>
   \<forall>j<i. \<exists>pfj. (d ! j) content = Inr (pfj, None) \<Longrightarrow>
   Document_loop d content f = Inr (Map.empty, Some err)"
proof (induction d arbitrary: i f)
  case Nil
  then show ?case by simp
next
  case (Cons p d)
  show ?case
  proof (cases i)
    case 0
    with Cons.prems show ?thesis by simp
  next
    case (Suc i')
    from Cons.prems(3) Suc obtain pf0 where p0: "p content = Inr (pf0, None)" by fastforce
    have "Document_loop d content (Update f pf0) = Inr (Map.empty, Some err)"
    proof (rule Cons.IH)
      show "i' < length d" using Cons.prems Suc by simp
      show "(d ! i') content = Inr (pf, Some err)" using Cons.prems Suc by simp
      show "\<forall>j<i'. \<exists>pfj. (d ! j) content = Inr (pfj, None)"
      proof (intro allI impI)
        fix j assume "j < i'"
        then have "Suc j < i" using Suc by simp
        with Cons.prems(3) have "\<exists>pfj. ((p # d) ! Suc j) content = Inr (pfj, None)" by blast
        then show "\<exists>pfj. (d ! j) content = Inr (pfj, None)" by simp
      qed
    qed
    with p0 show ?thesis by simp
  qed
qed

lemma Document_loop_ok:
  "length pfs = length d \<Longrightarrow> \<forall>i<length d. (d ! i) content = Inr (pfs ! i, None) \<Longrightarrow>
   Document_loop d content f = Inr (foldl Update f pfs, None)"
proof (induction d arbitrary: pfs f)
  case Nil
  then show ?case by simp
next
  case (Cons p d)
  then obtain pf pfs' where pfs: "pfs = pf # pfs'" by (cases pfs) auto
  from Cons.prems(2) have p0: "p content = Inr (pf, None)" using pfs by fastforce
  have "Document_loop d content (Update f pf) = Inr (foldl Update (Update f pf) pfs', None)"
  proof (rule Cons.IH)
    show "length pfs' = length d" using Cons.prems pfs by simp
    show "\<forall>i<length d. (d ! i) content = Inr (pfs' ! i, None)"
    proof (intro allI impI)
      fix i assume "i < length d"
      then have "Suc i < length (p # d)" by simp
      with Cons.prems(2) have "((p # d) ! Suc i) content = Inr (pfs ! Suc i, None)" by blast
      then show "(d ! i) content = Inr (pfs' ! i, None)" using pfs by simp
    qed
  qed
  with p0 pfs show ?case by simp
qed

text \<open>
  Claim C1. \<open>Document.Search\<close> starts from the empty Field Map and runs the child
  patterns in declared order. At the first child that returns an error it returns
  that error unchanged with the empty Field Map, whatever the children after it
  would do. When every child succeeds it returns the maps of the children merged by
  \<open>Update\<close> from left to right: a key that no child has is absent, and a key has the
  value of the last child that has it.
\<close>

theorem Document_Search_merge:
  "Document_Search [] content = Inr (Map.empty, None) \<and>
   (\<forall>i pf err.
      i < length d \<and> (d ! i) content = Inr (pf, Some err) \<and>
      (\<forall>j<i. \<exists>pfj. (d ! j) content = Inr (pfj, None))
      \<longrightarrow> Document_Search d content = Inr (Map.empty, Some err)) \<and>
   (\<forall>pfs.
      length pfs = length d \<and> (\<forall>i<length d. (d ! i) content = Inr (pfs ! i, None))
      \<longrightarrow> (\<exists>f. Document_Search d content = Inr (f, None) \<and>
               f = foldl Update Map.empty pfs \<and>
               (\<forall>k. (\<forall>i<length pfs. (pfs ! i) k = None) \<longrightarrow> f k = None) \<and>
               (\<forall>k i. i < length pfs \<and> (pfs ! i) k \<noteq> None \<and>
                      (\<forall>j. i < j \<and> j < length pfs \<longrightarrow> (pfs ! j) k = None)
                      \<longrightarrow> f k = (pfs ! i) k)))"
proof (intro conjI allI impI)
  show "Document_Search [] content = Inr (Map.empty, None)"
    by (simp add: Document_Search_def)
next
  fix i pf err
  assume "i < length d \<and> (d ! i) content = Inr (pf, Some err) \<and>
      (\<forall>j<i. \<exists>pfj. (d ! j) content = Inr (pfj, None))"
  then show "Document_Search d content = Inr (Map.empty, Some err)"
    unfolding Document_Search_def by (blast intro: Document_loop_fail)
next
  fix pfs
  assume a: "length pfs = length d \<and> (\<forall>i<length d. (d ! i) content = Inr (pfs ! i, None))"
  let ?f = "foldl Update Map.empty pfs"
  have run: "Document_Search d content = Inr (?f, None)"
    unfolding Document_Search_def using a by (intro Document_loop_ok) simp_all
  have absent: "\<forall>k. (\<forall>i<length pfs. (pfs ! i) k = None) \<longrightarrow> ?f k = None"
  proof (intro allI impI)
    fix k assume "\<forall>i<length pfs. (pfs ! i) k = None"
    then have "\<forall>pf \<in> set pfs. pf k = None" by (auto simp: in_set_conv_nth)
    then show "?f k = None" by (simp add: foldl_Update_absent)
  qed
  have last: "\<forall>k i. i < length pfs \<and> (pfs ! i) k \<noteq> None \<and>
      (\<forall>j. i < j \<and> j < length pfs \<longrightarrow> (pfs ! j) k = None) \<longrightarrow> ?f k = (pfs ! i) k"
  proof (intro allI impI)
    fix k i
    assume h: "i < length pfs \<and> (pfs ! i) k \<noteq> None \<and>
      (\<forall>j. i < j \<and> j < length pfs \<longrightarrow> (pfs ! j) k = None)"
    then obtain v where v: "(pfs ! i) k = Some v" by auto
    have "?f k = Some v" using h v by (intro foldl_Update_last [where i = i]) simp_all
    with v show "?f k = (pfs ! i) k" by simp
  qed
  from run absent last
  show "\<exists>f. Document_Search d content = Inr (f, None) \<and> f = ?f \<and>
      (\<forall>k. (\<forall>i<length pfs. (pfs ! i) k = None) \<longrightarrow> f k = None) \<and>
      (\<forall>k i. i < length pfs \<and> (pfs ! i) k \<noteq> None \<and>
             (\<forall>j. i < j \<and> j < length pfs \<longrightarrow> (pfs ! j) k = None) \<longrightarrow> f k = (pfs ! i) k)"
    by blast
qed

theorem Document_Search_merge_witness:
  "Document_Search
     [PatternGroup_Search (example_group ''first'' re_item False),
      PatternGroup_Search
        ((example_group ''second'' re_item False)\<lparr>pg_Clean := Some (\<lambda>f. f(''v'' \<mapsto> VString ''z''))\<rparr>)]
     ''- a'' = Inr ([''v'' \<mapsto> VString ''z''], None) \<and>
   Document_Search
     [PatternGroup_Search (example_group ''first'' re_item False),
      PatternGroup_Search (example_group ''second'' re_list False),
      (\<lambda>content. Inl IndexOutOfRange)]
     ''- a'' = Inr (Map.empty, Some (NoMatch ''second'' ''- a''))"
proof -
  let ?p1 = "PatternGroup_Search (example_group ''first'' re_item False)"
  let ?p2 = "PatternGroup_Search
        ((example_group ''second'' re_item False)\<lparr>pg_Clean := Some (\<lambda>f. f(''v'' \<mapsto> VString ''z''))\<rparr>)"
  let ?p3 = "PatternGroup_Search (example_group ''second'' re_list False)"
  let ?d = "[?p1, ?p2]"
  let ?d' = "[?p1, ?p3, (\<lambda>content. Inl IndexOutOfRange)]"
  let ?pfs = "[[''v'' \<mapsto> VString ''a''], [''v'' \<mapsto> VString ''z'']] :: Fields list"
  have hyp: "length ?pfs = length ?d \<and> (\<forall>i<length ?d. (?d ! i) ''- a'' = Inr (?pfs ! i, None))"
    by (simp add: All_less_Suc example_group_item example_group_item_clean)
  from Document_Search_merge [of "''- a''" ?d] hyp
  have "\<exists>f. Document_Search ?d ''- a'' = Inr (f, None) \<and> f = foldl Update Map.empty ?pfs"
    by blast
  then have ok: "Document_Search ?d ''- a'' = Inr ([''v'' \<mapsto> VString ''z''], None)"
    by (simp add: Update_def)
  have hyp': "Suc 0 < length ?d' \<and>
      (?d' ! Suc 0) ''- a'' = Inr (Map.empty, Some (NoMatch ''second'' ''- a'')) \<and>
      (\<forall>j<Suc 0. \<exists>pfj. (?d' ! j) ''- a'' = Inr (pfj, None))"
    by (simp add: example_group_item example_group_list_fails)
  from Document_Search_merge [of "''- a''" ?d'] hyp'
  have fail: "Document_Search ?d' ''- a'' = Inr (Map.empty, Some (NoMatch ''second'' ''- a''))"
    by blast
  from ok fail show ?thesis by blast
qed

subsection \<open>Documents.Search\<close>

lemma Documents_loop_first_ok:
  "i < length ds \<Longrightarrow> Document_Search (ds ! i) content = Inr (f, None) \<Longrightarrow>
   \<forall>j<i. \<exists>fj ej. Document_Search (ds ! j) content = Inr (fj, Some ej) \<Longrightarrow>
   Documents_loop quote ds content n errList = Inr (f, None)"
proof (induction ds arbitrary: i n errList)
  case Nil
  then show ?case by simp
next
  case (Cons doc ds)
  show ?case
  proof (cases i)
    case 0
    with Cons.prems show ?thesis by simp
  next
    case (Suc i')
    from Cons.prems(3) Suc obtain f0 e0 where
      d0: "Document_Search doc content = Inr (f0, Some e0)" by fastforce
    have "Documents_loop quote ds content (Suc n)
            (errList @ [ErrorString (''Document '' @ itoa n @ '': '' @ Error quote e0)])
          = Inr (f, None)"
    proof (rule Cons.IH)
      show "i' < length ds" using Cons.prems Suc by simp
      show "Document_Search (ds ! i') content = Inr (f, None)" using Cons.prems Suc by simp
      show "\<forall>j<i'. \<exists>fj ej. Document_Search (ds ! j) content = Inr (fj, Some ej)"
      proof (intro allI impI)
        fix j assume "j < i'"
        then have "Suc j < i" using Suc by simp
        with Cons.prems(3)
        have "\<exists>fj ej. Document_Search ((doc # ds) ! Suc j) content = Inr (fj, Some ej)" by blast
        then show "\<exists>fj ej. Document_Search (ds ! j) content = Inr (fj, Some ej)" by simp
      qed
    qed
    with d0 show ?thesis by simp
  qed
qed

lemma Documents_loop_all_fail:
  "length errs = length ds \<Longrightarrow>
   \<forall>i<length ds. \<exists>fi. Document_Search (ds ! i) content = Inr (fi, Some (errs ! i)) \<Longrightarrow>
   Documents_loop quote ds content n errList =
     Inr (Map.empty,
          Some (ErrorList (errList @ map (\<lambda>ie. ErrorString (document_message quote ie))
                                       (enumerate n errs))))"
proof (induction ds arbitrary: errs n errList)
  case Nil
  then show ?case by simp
next
  case (Cons doc ds)
  then obtain e errs' where errs: "errs = e # errs'" by (cases errs) auto
  from Cons.prems(2) errs obtain f0 where
    d0: "Document_Search doc content = Inr (f0, Some e)" by fastforce
  have "Documents_loop quote ds content (Suc n)
          (errList @ [ErrorString (''Document '' @ itoa n @ '': '' @ Error quote e)])
        = Inr (Map.empty,
            Some (ErrorList ((errList @ [ErrorString (''Document '' @ itoa n @ '': '' @ Error quote e)])
                    @ map (\<lambda>ie. ErrorString (document_message quote ie)) (enumerate (Suc n) errs'))))"
  proof (rule Cons.IH)
    show "length errs' = length ds" using Cons.prems errs by simp
    show "\<forall>i<length ds. \<exists>fi. Document_Search (ds ! i) content = Inr (fi, Some (errs' ! i))"
    proof (intro allI impI)
      fix i assume "i < length ds"
      then have "Suc i < length (doc # ds)" by simp
      with Cons.prems(2)
      have "\<exists>fi. Document_Search ((doc # ds) ! Suc i) content = Inr (fi, Some (errs ! Suc i))"
        by blast
      then show "\<exists>fi. Document_Search (ds ! i) content = Inr (fi, Some (errs' ! i))"
        using errs by simp
    qed
  qed
  with d0 errs show ?case by (simp add: document_message_def)
qed

lemma Error_document_messages:
  "Error quote (ErrorList (map (\<lambda>ie. ErrorString (document_message quote ie)) ies)) =
     Join (map (document_message quote) ies) ''; ''"
proof -
  have "map (Error quote) (map (\<lambda>ie. ErrorString (document_message quote ie)) ies) =
      map (document_message quote) ies"
    by (induction ies) simp_all
  then show ?thesis by (simp only: Error.simps)
qed

text \<open>
  Claim C2. \<open>Documents.Search\<close> returns the Field Map of the first document that
  succeeds, whatever the documents before it reported. When every document fails
  it returns the empty Field Map with one error whose message is the messages
  \<open>Document <i>: <message of document i>\<close>, with \<open>i\<close> counted from 0, joined in order by
  \<open>; \<close>. For two documents the message is \<open>Document 0: <msg0>; Document 1: <msg1>\<close>.
\<close>

theorem Documents_Search_first_success:

  "(\<forall>i f. i < length ds \<and> Document_Search (ds ! i) content = Inr (f, None) \<and>
          (\<forall>j<i. \<exists>fj ej. Document_Search (ds ! j) content = Inr (fj, Some ej))
          \<longrightarrow> Documents_Search quote ds content = Inr (f, None)) \<and>
   (\<forall>errs. length errs = length ds \<and>
          (\<forall>i<length ds. \<exists>fi. Document_Search (ds ! i) content = Inr (fi, Some (errs ! i)))
          \<longrightarrow> (\<exists>el. Documents_Search quote ds content = Inr (Map.empty, Some el) \<and>
                    Error quote el =
                      Join (map (document_message quote) (enumerate 0 errs)) ''; '')) \<and>
   Join [''Document '' @ itoa 0 @ '': '' @ msg0, ''Document '' @ itoa 1 @ '': '' @ msg1] ''; '' =
     ''Document 0: '' @ msg0 @ ''; Document 1: '' @ msg1"
proof (intro conjI allI impI)
  fix i f
  assume "i < length ds \<and> Document_Search (ds ! i) content = Inr (f, None) \<and>
          (\<forall>j<i. \<exists>fj ej. Document_Search (ds ! j) content = Inr (fj, Some ej))"
  then show "Documents_Search quote ds content = Inr (f, None)"
    unfolding Documents_Search_def by (blast intro: Documents_loop_first_ok)
next
  fix errs
  assume a: "length errs = length ds \<and>
          (\<forall>i<length ds. \<exists>fi. Document_Search (ds ! i) content = Inr (fi, Some (errs ! i)))"
  let ?el = "ErrorList (map (\<lambda>ie. ErrorString (document_message quote ie)) (enumerate 0 errs))"
  have "Documents_loop quote ds content 0 [] = Inr (Map.empty, Some (ErrorList ([] @ map (\<lambda>ie. ErrorString (document_message quote ie)) (enumerate 0 errs))))"
    using a by (intro Documents_loop_all_fail) simp_all
  then have "Documents_Search quote ds content = Inr (Map.empty, Some ?el)"
    by (simp add: Documents_Search_def)
  moreover have "Error quote ?el = Join (map (document_message quote) (enumerate 0 errs)) ''; ''"
    by (rule Error_document_messages)
  ultimately show "\<exists>el. Documents_Search quote ds content = Inr (Map.empty, Some el) \<and>
      Error quote el = Join (map (document_message quote) (enumerate 0 errs)) ''; ''"
    by blast
next
  have "itoa 0 = ''0''" "itoa 1 = ''1''" by code_simp+
  then show "Join [''Document '' @ itoa 0 @ '': '' @ msg0, ''Document '' @ itoa 1 @ '': '' @ msg1] ''; '' =
     ''Document 0: '' @ msg0 @ ''; Document 1: '' @ msg1"
    by simp
qed

lemma example_document_fails:
  "Document_Search [PatternGroup_Search (example_group name re_list False)] ''- a'' =
     Inr (Map.empty, Some (NoMatch name ''- a''))"
  by (simp add: Document_Search_def example_group_list_fails)

lemma example_document_item:
  "Document_Search [PatternGroup_Search (example_group name re_item False)] ''- a'' =
     Inr ([''v'' \<mapsto> VString ''a''], None)"
  by (simp add: Document_Search_def example_group_item Update_def)

theorem Documents_Search_first_success_witness:
  "Documents_Search (\<lambda>s. [CHR 0x22] @ s @ [CHR 0x22])
     [[PatternGroup_Search (example_group ''Name'' re_list False)],
      [PatternGroup_Search (example_group ''Item'' re_item False)]] ''- a''
     = Inr ([''v'' \<mapsto> VString ''a''], None) \<and>
   (\<exists>el. Documents_Search (\<lambda>s. [CHR 0x22] @ s @ [CHR 0x22])
            [[PatternGroup_Search (example_group ''Name'' re_list False)],
             [PatternGroup_Search (example_group ''Name'' re_list False)]] ''- a''
          = Inr (Map.empty, Some el) \<and>
        Error (\<lambda>s. [CHR 0x22] @ s @ [CHR 0x22]) el =
          ''Document 0: No match for '' @ [CHR 0x22] @ ''Name'' @ [CHR 0x22] @
          ''; Document 1: No match for '' @ [CHR 0x22] @ ''Name'' @ [CHR 0x22])"
proof -
  let ?q = "\<lambda>s. [CHR 0x22] @ s @ [CHR 0x22]"
  let ?bad = "[PatternGroup_Search (example_group ''Name'' re_list False)]"
  let ?good = "[PatternGroup_Search (example_group ''Item'' re_item False)]"
  let ?errs = "[NoMatch ''Name'' ''- a'', NoMatch ''Name'' ''- a'']"
  have digits: "itoa 0 = ''0''" "itoa (Suc 0) = ''1''" by code_simp+
  have h1: "Suc 0 < length [?bad, ?good] \<and>
      Document_Search ([?bad, ?good] ! Suc 0) ''- a'' = Inr ([''v'' \<mapsto> VString ''a''], None) \<and>
      (\<forall>j<Suc 0. \<exists>fj ej. Document_Search ([?bad, ?good] ! j) ''- a'' = Inr (fj, Some ej))"
    by (simp add: example_document_fails example_document_item)
  have ok: "Documents_Search ?q [?bad, ?good] ''- a'' = Inr ([''v'' \<mapsto> VString ''a''], None)"
    by (rule Documents_Search_first_success
          [of "[?bad, ?good]" "''- a''" ?q, THEN conjunct1, rule_format, OF h1])
  have h2: "length ?errs = length [?bad, ?bad] \<and>
      (\<forall>i<length [?bad, ?bad]. \<exists>fi. Document_Search ([?bad, ?bad] ! i) ''- a'' = Inr (fi, Some (?errs ! i)))"
    by (simp add: All_less_Suc example_document_fails)
  have "\<exists>el. Documents_Search ?q [?bad, ?bad] ''- a'' = Inr (Map.empty, Some el) \<and>
      Error ?q el = Join (map (document_message ?q) (enumerate 0 ?errs)) ''; ''"
    by (rule Documents_Search_first_success
          [of "[?bad, ?bad]" "''- a''" ?q, THEN conjunct2, THEN conjunct1, rule_format, OF h2])
  then obtain el where el: "Documents_Search ?q [?bad, ?bad] ''- a'' = Inr (Map.empty, Some el)"
    and msg: "Error ?q el = Join (map (document_message ?q) (enumerate 0 ?errs)) ''; ''"
    by (elim exE conjE)
  have "Join (map (document_message ?q) (enumerate 0 ?errs)) ''; '' =
      ''Document 0: No match for '' @ [CHR 0x22] @ ''Name'' @ [CHR 0x22] @
          ''; Document 1: No match for '' @ [CHR 0x22] @ ''Name'' @ [CHR 0x22]"
    by (simp add: document_message_def digits)
  with msg el have fail: "\<exists>el. Documents_Search ?q [?bad, ?bad] ''- a'' = Inr (Map.empty, Some el) \<and>
      Error ?q el = ''Document 0: No match for '' @ [CHR 0x22] @ ''Name'' @ [CHR 0x22] @
          ''; Document 1: No match for '' @ [CHR 0x22] @ ''Name'' @ [CHR 0x22]"
    by (intro exI [of _ el] conjI) (simp_all only:)
  from ok fail show ?thesis by (rule conjI)
qed

subsection \<open>PatternList.Search\<close>


lemma PatternList_loop_fail:
  "regexp_ok (pl_ItemRegex pl) \<Longrightarrow> j < length itemsTexts \<Longrightarrow> itemsTexts ! j \<noteq> [] \<Longrightarrow>
   \<not> MatchString (pl_ItemRegex pl) (itemsTexts ! j) \<Longrightarrow>
   \<forall>k<j. itemsTexts ! k = [] \<or> MatchString (pl_ItemRegex pl) (itemsTexts ! k) \<Longrightarrow>
   PatternList_loop pl listName i itemsTexts items =
     Inr (Map.empty, Some (NoMatch (pl_Name pl @ '' - item '' @ itoa (i + j)) (itemsTexts ! j)))"
proof (induction itemsTexts arbitrary: i j items)
  case Nil
  then show ?case by simp
next
  case (Cons t ts)
  show ?case
  proof (cases j)
    case 0
    with Cons.prems have "t \<noteq> []" and "FindStringSubmatch (pl_ItemRegex pl) t = None"
      by (simp_all add: MatchString_def)
    then show ?thesis using 0 by (simp add: regexGroups_nomatch)
  next
    case (Suc j')
    have IH: "\<And>i items. PatternList_loop pl listName i ts items =
        Inr (Map.empty, Some (NoMatch (pl_Name pl @ '' - item '' @ itoa (i + j')) (ts ! j')))"
    proof (rule Cons.IH [OF Cons.prems(1)])
      show "j' < length ts" using Cons.prems Suc by simp
      show "ts ! j' \<noteq> []" using Cons.prems Suc by simp
      show "\<not> MatchString (pl_ItemRegex pl) (ts ! j')" using Cons.prems Suc by simp
      show "\<forall>k<j'. ts ! k = [] \<or> MatchString (pl_ItemRegex pl) (ts ! k)"
      proof (intro allI impI)
        fix k assume "k < j'"
        then have "Suc k < j" using Suc by simp
        with Cons.prems(5)
        have "(t # ts) ! Suc k = [] \<or> MatchString (pl_ItemRegex pl) ((t # ts) ! Suc k)" by blast
        then show "ts ! k = [] \<or> MatchString (pl_ItemRegex pl) (ts ! k)" by simp
      qed
    qed
    from Cons.prems(5) Suc have first: "t = [] \<or> MatchString (pl_ItemRegex pl) t" by fastforce
    show ?thesis
    proof (cases "t = []")
      case True
      then show ?thesis using IH [of "Suc i" items] Suc by simp
    next
      case False
      with first obtain m where m: "FindStringSubmatch (pl_ItemRegex pl) t = Some m"
        by (auto simp: MatchString_def)
      have g: "regexGroups (pl_ItemRegex pl) t =
          Inr (group_fields (SubexpNames (pl_ItemRegex pl)) m, True)"
        using Cons.prems(1) m by (rule regexGroups_match)
      show ?thesis using False g IH Suc by simp
    qed
  qed
qed


text \<open>
  Claim C5, as amended. When the list regex has matched and the piece of index \<open>j\<close>
  among all the pieces that the split regex produced (the empty ones counted) is the
  first non-empty piece that the item regex does not match, \<open>PatternList.Search\<close>
  returns the empty Field Map and the error \<open>NoMatch\<close> whose name is the name of the
  pattern followed by \<open> - item j\<close> and whose content is that piece. The flag
  \<open>Optional\<close> plays no part.
\<close>

theorem PatternList_Search_item_fails:
  assumes "regexp_ok (pl_ItemRegex pl)"
    and "FindStringSubmatch (pl_ListRegex pl) content = Some m"
    and "1 < length (SubexpNames (pl_ListRegex pl))" and "1 < length m"
    and "itemsTexts = Split (pl_SplitRegex pl) (m ! 1)"
    and "j < length itemsTexts" and "itemsTexts ! j \<noteq> []"
    and "\<not> MatchString (pl_ItemRegex pl) (itemsTexts ! j)"
    and "\<forall>k<j. itemsTexts ! k = [] \<or> MatchString (pl_ItemRegex pl) (itemsTexts ! k)"
  shows "PatternList_Search pl content =
           Inr (Map.empty, Some (NoMatch (pl_Name pl @ '' - item '' @ itoa j) (itemsTexts ! j)))"
proof -
  have "PatternList_Search pl content =
      PatternList_loop pl (SubexpNames (pl_ListRegex pl) ! 1) 0 itemsTexts []"
    using assms(2,3,4,5) by (simp add: PatternList_Search_def MatchString_def index_def)
  also have "\<dots> = Inr (Map.empty,
      Some (NoMatch (pl_Name pl @ '' - item '' @ itoa (0 + j)) (itemsTexts ! j)))"
    using assms(1,6,7,8,9) by (rule PatternList_loop_fail)
  finally show ?thesis by simp
qed

text \<open>
  Claim C10. When the list regex matches the content and has no capture group
  (\<open>SubexpNames()\<close> has the entry 0 only), \<open>PatternList.Search\<close> panics with an index
  out of range, in both revisions, instead of returning a \<open>NoMatch\<close> error.
\<close>

theorem PatternList_Search_no_group_panics:

  assumes "MatchString (pl_ListRegex pl) content"
    and "length (SubexpNames (pl_ListRegex pl)) \<le> 1"
  shows "PatternList_Search pl content = Inl IndexOutOfRange \<and>
         PatternList_Search_early pl content = Inl IndexOutOfRange"
  using assms by (simp add: PatternList_Search_def PatternList_Search_early_def index_def)

lemma regexp_ok_re_item: "regexp_ok re_item"
  by (auto simp: regexp_ok_def re_item_def split: if_splits)

lemma re_item_match:
  "take 2 s = ''- '' \<Longrightarrow> CHR 0x0A \<notin> set s \<Longrightarrow> FindStringSubmatch re_item s = Some [s, drop 2 s]"
  by (simp add: re_item_def)

lemma re_item_no_match:
  "take 2 s \<noteq> ''- '' \<Longrightarrow> FindStringSubmatch re_item s = None"
  by (simp add: re_item_def)






theorem PatternList_Search_item_fails_witness:
  "PatternList_Search (example_list re_list True) ''L:- a\<newline>bad\<newline>- c'' =
     Inr (Map.empty, Some (NoMatch ''Items - item 1'' ''bad''))"
proof -
  let ?pl = "example_list re_list True"
  let ?content = "''L:- a\<newline>bad\<newline>- c''"
  let ?m = "[?content, ''- a\<newline>bad\<newline>- c'']"
  let ?texts = "[''- a'', ''bad'', ''- c'']"
  have h1: "regexp_ok (pl_ItemRegex ?pl)"
    by (simp add: example_list_def regexp_ok_re_item)
  have h2: "FindStringSubmatch (pl_ListRegex ?pl) ?content = Some ?m"
    by (simp add: example_list_def re_list_def)
  have h3: "1 < length (SubexpNames (pl_ListRegex ?pl))"
    by (simp add: example_list_def re_list_def)
  have h4: "1 < length ?m" by simp
  have h5: "?texts = Split (pl_SplitRegex ?pl) (?m ! 1)"
    by (simp add: example_list_def re_newline_def)
  have h6: "1 < length ?texts" by simp
  have h7: "?texts ! 1 \<noteq> []" by simp
  have h8: "\<not> MatchString (pl_ItemRegex ?pl) (?texts ! 1)"
    by (simp add: example_list_def MatchString_def re_item_no_match)
  have h9: "\<forall>k<1. ?texts ! k = [] \<or> MatchString (pl_ItemRegex ?pl) (?texts ! k)"
    by (simp add: example_list_def MatchString_def re_item_match)
  have digit: "itoa 1 = ''1''" by code_simp
  have name: "pl_Name ?pl @ '' - item '' @ itoa 1 = ''Items - item 1''"
    unfolding digit by (simp add: example_list_def)
  have item: "?texts ! 1 = ''bad''" by simp
  show ?thesis
    using PatternList_Search_item_fails [OF h1 h2 h3 h4 h5 h6 h7 h8 h9]
    unfolding name item .
qed

text \<open>
  Claim C5 as first stated counts the index among the processed (non-empty) items.
  In the list body \<^verbatim>\<open>\nbad\<close> the piece \<open>bad\<close> is the first and only non-empty
  piece, and the error names item 1, not item 0.
\<close>

theorem PatternList_Search_item_fails_counterexample:
  "Split re_newline ''\<newline>bad'' = ['''', ''bad''] \<and>
   PatternList_Search (example_list re_list False) ''L:\<newline>bad'' =
     Inr (Map.empty, Some (NoMatch ''Items - item 1'' ''bad'')) \<and>
   PatternList_Search (example_list re_list False) ''L:\<newline>bad'' \<noteq>
     Inr (Map.empty, Some (NoMatch ''Items - item 0'' ''bad''))"
proof -
  let ?pl = "example_list re_list False"
  have split: "Split re_newline ''\<newline>bad'' = ['''', ''bad'']"
    by (simp add: re_newline_def)
  have start: "PatternList_Search ?pl ''L:\<newline>bad'' = PatternList_loop ?pl ''items'' 0 ['''', ''bad''] []"
    by (simp add: PatternList_Search_def MatchString_def index_def example_list_def
          re_list_def re_newline_def)
  have ok: "regexp_ok (pl_ItemRegex ?pl)"
    by (simp add: example_list_def regexp_ok_re_item)
  have digit: "itoa (Suc 0) = ''1''" by code_simp
  have name: "pl_Name ?pl @ '' - item '' @ itoa (0 + Suc 0) = ''Items - item 1''"
    by (simp add: example_list_def digit)
  have fail: "PatternList_loop ?pl ''items'' 0 ['''', ''bad''] [] =
      Inr (Map.empty, Some (NoMatch (pl_Name ?pl @ '' - item '' @ itoa (0 + Suc 0)) (['''', ''bad''] ! Suc 0)))"
    by (rule PatternList_loop_fail [OF ok])
       (simp_all add: example_list_def MatchString_def re_item_no_match)
  have run: "PatternList_Search ?pl ''L:\<newline>bad'' =
      Inr (Map.empty, Some (NoMatch ''Items - item 1'' ''bad''))"
    unfolding start fail name by simp
  have diff: "PatternList_Search ?pl ''L:\<newline>bad'' \<noteq>
      Inr (Map.empty, Some (NoMatch ''Items - item 0'' ''bad''))"
    unfolding run by simp
  from split run diff show ?thesis by (intro conjI)
qed

theorem PatternList_Search_no_group_panics_witness:
  "MatchString re_list_nogroup ''L:- a'' \<and>
   length (SubexpNames re_list_nogroup) \<le> 1 \<and>
   PatternList_Search (example_list re_list_nogroup False) ''L:- a'' = Inl IndexOutOfRange \<and>
   PatternList_Search_early (example_list re_list_nogroup False) ''L:- a'' = Inl IndexOutOfRange"
proof -
  let ?pl = "example_list re_list_nogroup False"
  have m: "MatchString re_list_nogroup ''L:- a''"
    by (simp add: MatchString_def re_list_nogroup_def)
  have n: "length (SubexpNames re_list_nogroup) \<le> 1"
    by (simp add: re_list_nogroup_def)
  have h1: "MatchString (pl_ListRegex ?pl) ''L:- a''"
    using m by (simp add: example_list_def)
  have h2: "length (SubexpNames (pl_ListRegex ?pl)) \<le> 1"
    using n by (simp add: example_list_def)
  from m n PatternList_Search_no_group_panics [OF h1 h2] show ?thesis by (intro conjI) simp_all
qed

subsection \<open>PatternGroup.Search with a match\<close>

lemma PatternGroup_Search_match:
  assumes "regexp_ok (pg_Regex pg)" and "FindStringSubmatch (pg_Regex pg) content = Some m"
  shows "PatternGroup_Search pg content =
           Inr (case pg_Clean pg of
                  None \<Rightarrow> group_fields (SubexpNames (pg_Regex pg)) m
                | Some clean \<Rightarrow> clean (group_fields (SubexpNames (pg_Regex pg)) m), None)"
  using regexGroups_match [OF assms]
  by (simp add: PatternGroup_Search_def split: option.split)

lemma PatternGroup_Search_named_groups:
  assumes "regexp_ok (pg_Regex pg)" and "FindStringSubmatch (pg_Regex pg) content = Some m"
    and "pg_Clean pg = None" and "distinct (tl (SubexpNames (pg_Regex pg)))"
  shows "\<exists>f. PatternGroup_Search pg content = Inr (f, None) \<and>
           dom f = set (tl (SubexpNames (pg_Regex pg))) \<and>
           (\<forall>i. 0 < i \<and> i < length (SubexpNames (pg_Regex pg)) \<longrightarrow>
                f (SubexpNames (pg_Regex pg) ! i) = Some (VString (m ! i)))"
proof -
  let ?names = "SubexpNames (pg_Regex pg)"
  have len: "length ?names = length m"
    using assms(1,2) by (simp add: regexp_ok_def)
  have run: "PatternGroup_Search pg content = Inr (group_fields ?names m, None)"
    using PatternGroup_Search_match [OF assms(1,2)] assms(3) by simp
  have d: "dom (group_fields ?names m) = set (tl ?names)"
    using len by (rule group_fields_dom)
  have l: "\<forall>i. 0 < i \<and> i < length ?names \<longrightarrow>
      group_fields ?names m (?names ! i) = Some (VString (m ! i))"
    using group_fields_lookup [OF len assms(4)] by blast
  from run d l show ?thesis by blast
qed

lemma regexp_ok_re_list_unnamed_first: "regexp_ok re_list_unnamed_first"
  by (auto simp: regexp_ok_def re_list_unnamed_first_def split: if_splits)

text \<open>
  Claim C3 says that a matching \<open>PatternGroup\<close> returns exactly one key per named
  capture group and that unnamed groups add no key. By
  \<open>PatternGroup_Search_named_groups\<close> the keys are the names of all capture groups,
  each with the text of its group when the names differ, and an unnamed group has
  the empty name. At the regex \<^verbatim>\<open>(?s)^(- x):L:(?P<items>.*)$\<close>,
  whose only named group is \<open>items\<close>, the code returns two keys: the empty string
  (with the text of the unnamed group) and \<open>items\<close>.
\<close>

theorem PatternGroup_Search_unnamed_group:
  "SubexpNames re_list_unnamed_first = ['''', '''', ''items''] \<and>
   PatternGroup_Search (example_group ''Block'' re_list_unnamed_first False) ''- x:L:abc'' =
     Inr (['''' \<mapsto> VString ''- x'', ''items'' \<mapsto> VString ''abc''], None) \<and>
   dom ['''' \<mapsto> VString ''- x'', ''items'' \<mapsto> VString ''abc''] = {'''', ''items''}"
proof -
  let ?pg = "example_group ''Block'' re_list_unnamed_first False"
  have names: "SubexpNames re_list_unnamed_first = ['''', '''', ''items'']"
    by (simp add: re_list_unnamed_first_def)
  have ok: "regexp_ok (pg_Regex ?pg)"
    by (simp add: example_group_def regexp_ok_re_list_unnamed_first)
  have find: "FindStringSubmatch (pg_Regex ?pg) ''- x:L:abc'' = Some [''- x:L:abc'', ''- x'', ''abc'']"
    by (simp add: example_group_def re_list_unnamed_first_def)
  have flds: "group_fields (SubexpNames (pg_Regex ?pg)) [''- x:L:abc'', ''- x'', ''abc''] =
      ['''' \<mapsto> VString ''- x'', ''items'' \<mapsto> VString ''abc'']"
    by (simp add: example_group_def names group_fields_def store_group_pair)
  have clean: "pg_Clean ?pg = None" by (simp add: example_group_def)
  have run: "PatternGroup_Search ?pg ''- x:L:abc'' =
      Inr (['''' \<mapsto> VString ''- x'', ''items'' \<mapsto> VString ''abc''], None)"
    using PatternGroup_Search_match [OF ok find] unfolding flds clean by simp
  have d: "dom ['''' \<mapsto> VString ''- x'', ''items'' \<mapsto> VString ''abc''] = {'''', ''items''}"
    by auto
  from names run d show ?thesis by (intro conjI)
qed

subsection \<open>The accessors\<close>

lemma GetString_cases:
  "GetString f key = (case f key of Some (VString s) \<Rightarrow> s | _ \<Rightarrow> '''')"
  by (simp add: GetString_def split: option.split iface.split)

lemma GetFieldsSlice_cases:
  "GetFieldsSlice f key = (case f key of Some (VFieldsSlice vs) \<Rightarrow> vs | _ \<Rightarrow> [])"
  by (simp add: GetFieldsSlice_def split: option.split iface.split)

lemma GetMapSlice_fallback:
  "f key = None \<or> (\<forall>vf. f key \<noteq> Some (VFieldsSlice vf)) \<Longrightarrow> GetMapSlice f key = Inr []"
  by (auto simp: GetMapSlice_def split: option.split iface.split)

lemma GetMapSlice_loop_strings:
  "\<forall>item \<in> set vf. \<forall>val \<in> ran item. holds_string val \<Longrightarrow>
   \<exists>vs. GetMapSlice_loop vf = Inr vs \<and> length vs = length vf \<and>
        (\<forall>i<length vf. \<forall>k. map_option VString ((vs ! i) k) = (vf ! i) k)"
proof (induction vf)
  case Nil
  then show ?case by simp
next
  case (Cons item vf)
  then obtain vs where vs: "GetMapSlice_loop vf = Inr vs" "length vs = length vf"
    "\<forall>i<length vf. \<forall>k. map_option VString ((vs ! i) k) = (vf ! i) k"
    by auto
  have all: "\<forall>val \<in> ran item. holds_string val" using Cons.prems by simp
  let ?m = "\<lambda>key. case item key of Some (VString s) \<Rightarrow> Some s | _ \<Rightarrow> None"
  have it: "GetMapSlice_item item = Inr ?m"
    using all by (simp add: GetMapSlice_item_def)
  have conv: "map_option VString (?m k) = item k" for k
  proof (cases "item k")
    case None
    then show ?thesis by simp
  next
    case (Some v)
    then have "v \<in> ran item" by (auto simp: ran_def)
    with all have "holds_string v" by blast
    then obtain s where "v = VString s" by (cases v) simp_all
    with Some show ?thesis by simp
  qed
  have "\<forall>i<length (item # vf). \<forall>k. map_option VString (((?m # vs) ! i) k) = ((item # vf) ! i) k"
  proof (intro allI impI)
    fix i k assume "i < length (item # vf)"
    then show "map_option VString (((?m # vs) ! i) k) = ((item # vf) ! i) k"
      using vs(3) conv by (cases i) simp_all
  qed
  moreover have "GetMapSlice_loop (item # vf) = Inr (?m # vs)"
    using it vs(1) by simp
  moreover have "length (?m # vs) = length (item # vf)" using vs(2) by simp
  ultimately show ?case by blast
qed

lemma GetMapSlice_strings:
  "f key = Some (VFieldsSlice vf) \<Longrightarrow> \<forall>item \<in> set vf. \<forall>val \<in> ran item. holds_string val \<Longrightarrow>
   \<exists>vs. GetMapSlice f key = Inr vs \<and> length vs = length vf \<and>
        (\<forall>i<length vf. \<forall>k. map_option VString ((vs ! i) k) = (vf ! i) k)"
  using GetMapSlice_loop_strings [of vf] by (simp add: GetMapSlice_def)

text \<open>
  Claim C7 says that \<open>GetMapSlice\<close> returns the stored value whenever the key holds a
  list of Field Maps. The lemmas above give the fallbacks of the claim and the
  conversion of a list whose items hold strings only. At a stored list with an item
  that holds another value, \<open>GetMapSlice\<close> returns nothing: it panics.
\<close>

theorem GetMapSlice_stored_list_panics:
  "[''items'' \<mapsto> VFieldsSlice [[''n'' \<mapsto> VOther 7]]] ''items'' =
     Some (VFieldsSlice [[''n'' \<mapsto> VOther 7]]) \<and>
   GetMapSlice [''items'' \<mapsto> VFieldsSlice [[''n'' \<mapsto> VOther 7]]] ''items'' =
     Inl InterfaceConversion"
  by (simp add: GetMapSlice_def GetMapSlice_item_def)

text \<open>
  Claim C8 says that no accessor panics, also on a list of Field Maps whose items
  hold values that are not strings. On such a Field Map \<open>GetString\<close> and
  \<open>GetFieldsSlice\<close> return, and \<open>GetMapSlice\<close> panics at its unchecked type assertion.
\<close>

theorem accessors_on_nested_list:

  "GetString [''items'' \<mapsto> VFieldsSlice [[''sub'' \<mapsto> VFieldsSlice []]]] ''items'' = '''' \<and>
   GetFieldsSlice [''items'' \<mapsto> VFieldsSlice [[''sub'' \<mapsto> VFieldsSlice []]]] ''items'' =
     [[''sub'' \<mapsto> VFieldsSlice []]] \<and>
   GetMapSlice [''items'' \<mapsto> VFieldsSlice [[''sub'' \<mapsto> VFieldsSlice []]]] ''items'' =
     Inl InterfaceConversion"
  by (simp add: GetString_def GetFieldsSlice_def GetMapSlice_def GetMapSlice_item_def)

subsection \<open>Repeated calls\<close>

lemma make_Fields_fst: "fst (make_Fields s) = next_addr s"
  by (simp add: make_Fields_def)

lemma make_Fields_receiver: "receiver (snd (make_Fields s)) = receiver s"
  by (simp add: make_Fields_def)

lemma make_Fields_next: "next_addr (snd (make_Fields s)) = Suc (next_addr s)"
  by (simp add: make_Fields_def)

lemma make_Fields_objects:
  "objects (snd (make_Fields s)) b = (if b = next_addr s then Some Map.empty else objects s b)"
  by (simp add: make_Fields_def)

lemma assign_key_receiver: "receiver (assign_key a key v s) = receiver s"
  by (simp add: assign_key_def split: option.split)

lemma assign_key_next: "next_addr (assign_key a key v s) = next_addr s"
  by (simp add: assign_key_def split: option.split)

lemma assign_key_objects:
  "objects (assign_key a key v s) b =
     (if b = a then map_option (\<lambda>m. m(key \<mapsto> v)) (objects s a) else objects s b)"
  by (simp add: assign_key_def split: option.split)

lemma call_clean_receiver: "receiver (call_clean clean a s) = receiver s"
  by (simp add: call_clean_def split: option.split)

lemma call_clean_next: "next_addr (call_clean clean a s) = next_addr s"
  by (simp add: call_clean_def split: option.split)

lemma call_clean_objects:
  "objects (call_clean clean a s) b =
     (if b = a then map_option clean (objects s a) else objects s b)"
  by (simp add: call_clean_def split: option.split)

lemma untouched_refl: "untouched s s"
  by (simp add: untouched_def)

lemma untouched_trans: "untouched s s' \<Longrightarrow> untouched s' s'' \<Longrightarrow> untouched s s''"
  by (auto simp: untouched_def)

lemma untouched_make_Fields: "untouched s (snd (make_Fields s))"
  by (simp add: untouched_def make_Fields_receiver make_Fields_next make_Fields_objects)

lemma untouched_assign_key: "next_addr s \<le> a \<Longrightarrow> untouched s (assign_key a key v s)"
  by (simp add: untouched_def assign_key_receiver assign_key_next assign_key_objects)

lemma untouched_call_clean: "next_addr s \<le> a \<Longrightarrow> untouched s (call_clean clean a s)"
  by (simp add: untouched_def call_clean_receiver call_clean_next call_clean_objects)

text \<open>
  The loop of \<open>regexGroups\<close> changes the map object at \<open>a\<close> only, and what it does
  depends on neither the address nor the rest of the state.
\<close>

lemma regexGroups_loop_heap_shape:
  "\<exists>pn g. \<forall>a (s :: 'r heap_state) m. objects s a = Some m \<longrightarrow>
     fst (regexGroups_loop_heap matches i names a s) = pn \<and>
     receiver (snd (regexGroups_loop_heap matches i names a s)) = receiver s \<and>
     next_addr (snd (regexGroups_loop_heap matches i names a s)) = next_addr s \<and>
     (\<forall>b. objects (snd (regexGroups_loop_heap matches i names a s)) b =
            (if b = a then Some (g m) else objects s b))"
proof (induction names arbitrary: i)
  case Nil
  have "\<forall>a (s :: 'r heap_state) m. objects s a = Some m \<longrightarrow>
     fst (regexGroups_loop_heap matches i [] a s) = None \<and>
     receiver (snd (regexGroups_loop_heap matches i [] a s)) = receiver s \<and>
     next_addr (snd (regexGroups_loop_heap matches i [] a s)) = next_addr s \<and>
     (\<forall>b. objects (snd (regexGroups_loop_heap matches i [] a s)) b =
            (if b = a then Some ((\<lambda>m. m) m) else objects s b))"
    by simp
  then show ?case
    by (intro exI [where x = None] exI [where x = "\<lambda>m. m"]) simp
next
  case (Cons groupName names)
  from Cons.IH [of "Suc i"] obtain pn g where IH:
    "\<And>a (s :: 'r heap_state) m. objects s a = Some m \<Longrightarrow>
       fst (regexGroups_loop_heap matches (Suc i) names a s) = pn \<and>
       receiver (snd (regexGroups_loop_heap matches (Suc i) names a s)) = receiver s \<and>
       next_addr (snd (regexGroups_loop_heap matches (Suc i) names a s)) = next_addr s \<and>
       (\<forall>b. objects (snd (regexGroups_loop_heap matches (Suc i) names a s)) b =
              (if b = a then Some (g m) else objects s b))"
    by blast
  show ?case
  proof (cases "i = 0")
    case True
    have "\<forall>a (s :: 'r heap_state) m. objects s a = Some m \<longrightarrow>
       fst (regexGroups_loop_heap matches i (groupName # names) a s) = pn \<and>
       receiver (snd (regexGroups_loop_heap matches i (groupName # names) a s)) = receiver s \<and>
       next_addr (snd (regexGroups_loop_heap matches i (groupName # names) a s)) = next_addr s \<and>
       (\<forall>b. objects (snd (regexGroups_loop_heap matches i (groupName # names) a s)) b =
              (if b = a then Some (g m) else objects s b))"
      using True IH by simp
    then show ?thesis
      by (intro exI [where x = pn] exI [where x = g]) simp
  next
    case False
    show ?thesis
    proof (cases "i < length matches")
      case True
      let ?v = "RString (matches ! i)"
      have "\<forall>a (s :: 'r heap_state) m. objects s a = Some m \<longrightarrow>
         fst (regexGroups_loop_heap matches i (groupName # names) a s) = pn \<and>
         receiver (snd (regexGroups_loop_heap matches i (groupName # names) a s)) = receiver s \<and>
         next_addr (snd (regexGroups_loop_heap matches i (groupName # names) a s)) = next_addr s \<and>
         (\<forall>b. objects (snd (regexGroups_loop_heap matches i (groupName # names) a s)) b =
                (if b = a then Some ((\<lambda>m. g (m(groupName \<mapsto> ?v))) m) else objects s b))"
      proof (intro allI impI)
        fix a and s :: "'r heap_state" and m
        assume m: "objects s a = Some m"
        let ?s1 = "assign_key a groupName ?v s"
        have step: "regexGroups_loop_heap matches i (groupName # names) a s =
            regexGroups_loop_heap matches (Suc i) names a ?s1"
          using False True by simp
        have m1: "objects ?s1 a = Some (m(groupName \<mapsto> ?v))"
          using m by (simp add: assign_key_objects)
        have other: "\<And>b. b \<noteq> a \<Longrightarrow> objects ?s1 b = objects s b"
          by (simp add: assign_key_objects)
        from IH [OF m1] other
        show "fst (regexGroups_loop_heap matches i (groupName # names) a s) = pn \<and>
         receiver (snd (regexGroups_loop_heap matches i (groupName # names) a s)) = receiver s \<and>
         next_addr (snd (regexGroups_loop_heap matches i (groupName # names) a s)) = next_addr s \<and>
         (\<forall>b. objects (snd (regexGroups_loop_heap matches i (groupName # names) a s)) b =
                (if b = a then Some ((\<lambda>m. g (m(groupName \<mapsto> ?v))) m) else objects s b))"
          unfolding step by (simp add: assign_key_receiver assign_key_next)
      qed
      then show ?thesis
        by (intro exI [where x = pn] exI [where x = "\<lambda>m. g (m(groupName \<mapsto> ?v))"]) simp
    next
      case nolen: False
      have "\<forall>a (s :: 'r heap_state) m. objects s a = Some m \<longrightarrow>
         fst (regexGroups_loop_heap matches i (groupName # names) a s) = Some IndexOutOfRange \<and>
         receiver (snd (regexGroups_loop_heap matches i (groupName # names) a s)) = receiver s \<and>
         next_addr (snd (regexGroups_loop_heap matches i (groupName # names) a s)) = next_addr s \<and>
         (\<forall>b. objects (snd (regexGroups_loop_heap matches i (groupName # names) a s)) b =
                (if b = a then Some ((\<lambda>m. m) m) else objects s b))"
        using False nolen by simp
      then show ?thesis
        by (intro exI [where x = "Some IndexOutOfRange"] exI [where x = "\<lambda>m. m"]) simp
    qed
  qed
qed

lemma untouchedI:
  "receiver s' = receiver s \<Longrightarrow> next_addr s \<le> next_addr s' \<Longrightarrow>
   (\<And>b. b < next_addr s \<Longrightarrow> objects s' b = objects s b) \<Longrightarrow> untouched s s'"
  by (simp add: untouched_def)

lemma regexGroups_heap_shape:
  "\<exists>out m. \<forall>s :: 'r heap_state.
     fst (regexGroups_heap re content s) =
       (case out of Inl p \<Rightarrow> Inl p | Inr ok \<Rightarrow> Inr (next_addr s, ok)) \<and>
     receiver (snd (regexGroups_heap re content s)) = receiver s \<and>
     next_addr (snd (regexGroups_heap re content s)) = Suc (next_addr s) \<and>
     (\<forall>b. objects (snd (regexGroups_heap re content s)) b =
            (if b = next_addr s then Some m else objects s b))"
proof (cases "MatchString re content")
  case False
  have "\<forall>s :: 'r heap_state.
     fst (regexGroups_heap re content s) =
       (case Inr False of Inl p \<Rightarrow> Inl p | Inr ok \<Rightarrow> Inr (next_addr s, ok)) \<and>
     receiver (snd (regexGroups_heap re content s)) = receiver s \<and>
     next_addr (snd (regexGroups_heap re content s)) = Suc (next_addr s) \<and>
     (\<forall>b. objects (snd (regexGroups_heap re content s)) b =
            (if b = next_addr s then Some Map.empty else objects s b))"
    using False by (simp add: regexGroups_heap_def make_Fields_def)
  then show ?thesis
    by (intro exI [where x = "Inr False"] exI [where x = Map.empty])
next
  case True
  let ?ms = "case FindStringSubmatch re content of None \<Rightarrow> [] | Some m \<Rightarrow> m"
  from regexGroups_loop_heap_shape [of ?ms 0 "SubexpNames re"] obtain pn g where L:
    "\<And>a (s :: 'r heap_state) m. objects s a = Some m \<Longrightarrow>
       fst (regexGroups_loop_heap ?ms 0 (SubexpNames re) a s) = pn \<and>
       receiver (snd (regexGroups_loop_heap ?ms 0 (SubexpNames re) a s)) = receiver s \<and>
       next_addr (snd (regexGroups_loop_heap ?ms 0 (SubexpNames re) a s)) = next_addr s \<and>
       (\<forall>b. objects (snd (regexGroups_loop_heap ?ms 0 (SubexpNames re) a s)) b =
              (if b = a then Some (g m) else objects s b))"
    by blast
  let ?out = "case pn of None \<Rightarrow> Inr True | Some p \<Rightarrow> Inl p"
  have "\<forall>s :: 'r heap_state.
     fst (regexGroups_heap re content s) =
       (case ?out of Inl p \<Rightarrow> Inl p | Inr ok \<Rightarrow> Inr (next_addr s, ok)) \<and>
     receiver (snd (regexGroups_heap re content s)) = receiver s \<and>
     next_addr (snd (regexGroups_heap re content s)) = Suc (next_addr s) \<and>
     (\<forall>b. objects (snd (regexGroups_heap re content s)) b =
            (if b = next_addr s then Some (g Map.empty) else objects s b))"
  proof
    fix s :: "'r heap_state"
    define s1 where "s1 = snd (make_Fields s)"
    let ?run = "regexGroups_loop_heap ?ms 0 (SubexpNames re) (next_addr s) s1"
    have mf: "make_Fields s = (next_addr s, s1)"
      by (simp add: s1_def make_Fields_def)
    have e: "objects s1 (next_addr s) = Some Map.empty"
      by (simp add: s1_def make_Fields_objects)
    note l = L [OF e]
    obtain s2 where run: "?run = (pn, s2)"
      using l by (metis prod.collapse)
    have s2: "s2 = snd ?run" by (simp add: run)
    have rg: "regexGroups_heap re content s =
        (case pn of Some p \<Rightarrow> (Inl p, s2) | None \<Rightarrow> (Inr (next_addr s, True), s2))"
      using True by (simp add: regexGroups_heap_def mf run split: option.split)
    have sn: "snd (regexGroups_heap re content s) = s2"
      unfolding rg by (simp split: option.split)
    have fs: "fst (regexGroups_heap re content s) =
        (case ?out of Inl p \<Rightarrow> Inl p | Inr ok \<Rightarrow> Inr (next_addr s, ok))"
      unfolding rg by (simp split: option.split)
    have r1: "receiver s1 = receiver s" "next_addr s1 = Suc (next_addr s)"
      "\<And>b. objects s1 b = (if b = next_addr s then Some Map.empty else objects s b)"
      by (simp_all add: s1_def make_Fields_receiver make_Fields_next make_Fields_objects)
    show "fst (regexGroups_heap re content s) =
       (case ?out of Inl p \<Rightarrow> Inl p | Inr ok \<Rightarrow> Inr (next_addr s, ok)) \<and>
     receiver (snd (regexGroups_heap re content s)) = receiver s \<and>
     next_addr (snd (regexGroups_heap re content s)) = Suc (next_addr s) \<and>
     (\<forall>b. objects (snd (regexGroups_heap re content s)) b =
            (if b = next_addr s then Some (g Map.empty) else objects s b))"
      unfolding sn s2 using fs l by (simp add: r1)
  qed
  then show ?thesis
    by (intro exI [where x = ?out] exI [where x = "g Map.empty"])
qed

lemma PatternGroup_Search_heap_run:
  "\<exists>out. \<forall>s. receiver s = pg \<longrightarrow> group_run out s (PatternGroup_Search_heap content s)"
proof -
  from regexGroups_heap_shape [of "hg_Regex pg" content] obtain outg m where G:
    "\<And>s :: HeapPatternGroup heap_state.
       fst (regexGroups_heap (hg_Regex pg) content s) =
         (case outg of Inl p \<Rightarrow> Inl p | Inr ok \<Rightarrow> Inr (next_addr s, ok)) \<and>
       receiver (snd (regexGroups_heap (hg_Regex pg) content s)) = receiver s \<and>
       next_addr (snd (regexGroups_heap (hg_Regex pg) content s)) = Suc (next_addr s) \<and>
       (\<forall>b. objects (snd (regexGroups_heap (hg_Regex pg) content s)) b =
              (if b = next_addr s then Some m else objects s b))"
    by blast
  let ?out = "case outg of
      Inl p \<Rightarrow> Inl p
    | Inr ok \<Rightarrow>
        if \<not> ok then
          (if hg_Optional pg then Inr (None, Map.empty)
           else Inr (Some (NoMatch (hg_Name pg) content), Map.empty))
        else (case hg_Clean pg of None \<Rightarrow> Inr (None, m) | Some clean \<Rightarrow> Inr (None, clean m))"
  have "\<forall>s. receiver s = pg \<longrightarrow> group_run ?out s (PatternGroup_Search_heap content s)"
  proof (intro allI impI)
    fix s :: "HeapPatternGroup heap_state"
    assume r: "receiver s = pg"
    define s1 where "s1 = snd (regexGroups_heap (hg_Regex pg) content s)"
    have g: "regexGroups_heap (hg_Regex pg) content s =
        (case outg of Inl p \<Rightarrow> Inl p | Inr ok \<Rightarrow> Inr (next_addr s, ok), s1)"
      using G [of s] unfolding s1_def by (metis prod.collapse)
    have r1: "receiver s1 = pg" "next_addr s1 = Suc (next_addr s)"
      "\<And>b. objects s1 b = (if b = next_addr s then Some m else objects s b)"
      using G [of s] r unfolding s1_def by simp_all
    have u1: "untouched s s1"
      by (rule untouchedI) (simp_all add: r1 r)
    show "group_run ?out s (PatternGroup_Search_heap content s)"
    proof (cases outg)
      case (Inl p)
      then show ?thesis
        using u1 by (simp add: PatternGroup_Search_heap_def r g group_run_def)
    next
      case (Inr ok)
      show ?thesis
      proof (cases ok)
        case False
        define s2 where "s2 = snd (make_Fields s1)"
        have mf: "make_Fields s1 = (Suc (next_addr s), s2)"
          by (simp add: s2_def make_Fields_def r1)
        have r2: "receiver s2 = pg" "next_addr s2 = Suc (Suc (next_addr s))"
          "\<And>b. objects s2 b = (if b = Suc (next_addr s) then Some Map.empty else objects s1 b)"
          by (simp_all add: s2_def make_Fields_receiver make_Fields_next make_Fields_objects r1)
        have u2: "untouched s s2"
          by (rule untouchedI) (simp_all add: r2 r1 r)
        have n: "new_in s s2 (Suc (next_addr s))"
          by (simp add: new_in_def r2)
        show ?thesis
          using Inr False u2 n
          by (simp add: PatternGroup_Search_heap_def r g r1 mf group_run_def r2)
      next
        case True
        show ?thesis
        proof (cases "hg_Clean pg")
          case None
          have n: "new_in s s1 (next_addr s)"
            by (simp add: new_in_def r1)
          show ?thesis
            using Inr True None u1 n
            by (simp add: PatternGroup_Search_heap_def r g r1 group_run_def)
        next
          case (Some clean)
          define s2 where "s2 = call_clean clean (next_addr s) s1"
          have r2: "receiver s2 = pg" "next_addr s2 = Suc (next_addr s)"
            "\<And>b. objects s2 b = (if b = next_addr s then Some (clean m) else objects s b)"
            by (simp_all add: s2_def call_clean_receiver call_clean_next call_clean_objects r1)
          have u2: "untouched s s2"
            by (rule untouchedI) (simp_all add: r2 r)
          have n: "new_in s s2 (next_addr s)"
            by (simp add: new_in_def r2)
          show ?thesis
            using Inr True Some u2 n
            by (simp add: PatternGroup_Search_heap_def r g r1 group_run_def s2_def [symmetric] r2)
        qed
      qed
    qed
  qed
  then show ?thesis by (rule exI)
qed

lemma list_run_panic:
  "untouched s (snd run) \<Longrightarrow> fst run = Inl p \<Longrightarrow> list_run listName (Inl p) items s run"
  by (simp add: list_run_def)

lemma list_run_empty:
  "untouched s (snd run) \<Longrightarrow> fst run = Inr (a, err) \<Longrightarrow> new_in s (snd run) a \<Longrightarrow>
   objects (snd run) a = Some Map.empty \<Longrightarrow> list_run listName (Inr (err, None)) items s run"
  by (simp add: list_run_def)

lemma list_run_slice:
  "untouched s (snd run) \<Longrightarrow> fst run = Inr (a, err) \<Longrightarrow> new_in s (snd run) a \<Longrightarrow>
   objects (snd run) a = Some [listName \<mapsto> RFieldsSlice (items @ new)] \<Longrightarrow>
   \<forall>b \<in> set new. new_in s (snd run) b \<Longrightarrow> map (objects (snd run)) new = contents \<Longrightarrow>
   list_run listName (Inr (err, Some contents)) items s run"
  unfolding list_run_def by (simp del: fun_upd_apply) blast

lemma new_in_earlier: "new_in s2 s' b \<Longrightarrow> next_addr s \<le> next_addr s2 \<Longrightarrow> new_in s s' b"
  by (simp add: new_in_def)

lemma PatternList_loop_heap_Nil_run:
  assumes "receiver s = pl"
  shows "list_run listName (Inr (None, Some [])) items s (PatternList_loop_heap listName i [] items s)"
proof -
  define s1 where "s1 = snd (make_Fields s)"
  define s2 where "s2 = assign_key (next_addr s) listName (RFieldsSlice items) s1"
  have mf: "make_Fields s = (next_addr s, s1)"
    by (simp add: s1_def make_Fields_def)
  have run: "PatternList_loop_heap listName i [] items s = (Inr (next_addr s, None), s2)"
    by (simp add: mf s2_def)
  have r1: "receiver s1 = receiver s" "next_addr s1 = Suc (next_addr s)"
    "\<And>b. objects s1 b = (if b = next_addr s then Some Map.empty else objects s b)"
    by (simp_all add: s1_def make_Fields_receiver make_Fields_next make_Fields_objects)
  have r2: "receiver s2 = receiver s" "next_addr s2 = Suc (next_addr s)"
    "\<And>b. objects s2 b =
       (if b = next_addr s then Some [listName \<mapsto> RFieldsSlice items] else objects s b)"
    by (simp_all add: s2_def assign_key_receiver assign_key_next assign_key_objects r1)
  have u: "untouched s s2"
    by (rule untouchedI) (simp_all add: r2)
  show ?thesis
    unfolding run
    by (rule list_run_slice [where a = "next_addr s" and new = "[]"])
       (simp_all add: u new_in_def r2)
qed

lemma list_run_cases:
  assumes "list_run listName out items s run"
  obtains (panic) p where "out = Inl p" "fst run = Inl p"
  | (empty) err a where "out = Inr (err, None)" "fst run = Inr (a, err)" "new_in s (snd run) a"
      "objects (snd run) a = Some Map.empty"
  | (slice) err contents a new where "out = Inr (err, Some contents)" "fst run = Inr (a, err)"
      "new_in s (snd run) a"
      "objects (snd run) a = Some [listName \<mapsto> RFieldsSlice (items @ new)]"
      "\<forall>b \<in> set new. new_in s (snd run) b" "map (objects (snd run)) new = contents"
proof (cases out)
  case (Inl p)
  with assms have "fst run = Inl p" by (simp add: list_run_def)
  with Inl show ?thesis by (rule panic)
next
  case (Inr es)
  obtain err shape where es: "es = (err, shape)" by (cases es)
  show ?thesis
  proof (cases shape)
    case None
    with assms Inr es obtain a where "fst run = Inr (a, err)" "new_in s (snd run) a"
      "objects (snd run) a = Some Map.empty"
      by (auto simp: list_run_def)
    with Inr es None show ?thesis by (intro empty) simp_all
  next
    case (Some contents)
    with assms Inr es obtain a new where "fst run = Inr (a, err)" "new_in s (snd run) a"
      "objects (snd run) a = Some [listName \<mapsto> RFieldsSlice (items @ new)]"
      "\<forall>b \<in> set new. new_in s (snd run) b" "map (objects (snd run)) new = contents"
      unfolding list_run_def by (simp del: fun_upd_apply) blast
    with Inr es Some show ?thesis by (intro slice) simp_all
  qed
qed

lemma list_run_untouched: "list_run listName out items s run \<Longrightarrow> untouched s (snd run)"
  by (simp add: list_run_def)

lemma PatternList_loop_heap_run:
  "\<exists>out. \<forall>s items. receiver s = pl \<longrightarrow> (\<forall>b \<in> set items. b < next_addr s) \<longrightarrow>
     list_run listName out items s (PatternList_loop_heap listName i itemsTexts items s)"
proof (induction itemsTexts arbitrary: i)
  case Nil
  have "\<forall>s items. receiver s = pl \<longrightarrow> (\<forall>b \<in> set items. b < next_addr s) \<longrightarrow>
     list_run listName (Inr (None, Some [])) items s (PatternList_loop_heap listName i [] items s)"
    by (simp add: PatternList_loop_heap_Nil_run del: PatternList_loop_heap.simps)
  then show ?case by (rule exI)
next
  case (Cons itemText itemsTexts)
  from Cons.IH [of "Suc i"] obtain out' where IH:
    "\<And>s items. receiver s = pl \<Longrightarrow> (\<forall>b \<in> set items. b < next_addr s) \<Longrightarrow>
       list_run listName out' items s (PatternList_loop_heap listName (Suc i) itemsTexts items s)"
    by blast
  show ?case
  proof (cases "itemText = []")
    case True
    have "\<forall>s items. receiver s = pl \<longrightarrow> (\<forall>b \<in> set items. b < next_addr s) \<longrightarrow>
       list_run listName out' items s
         (PatternList_loop_heap listName i (itemText # itemsTexts) items s)"
      using True IH by simp
    then show ?thesis by (rule exI)
  next
    case False
    from regexGroups_heap_shape [of "hl_ItemRegex pl" itemText] obtain outg m where G:
      "\<And>s :: HeapPatternList heap_state.
         fst (regexGroups_heap (hl_ItemRegex pl) itemText s) =
           (case outg of Inl p \<Rightarrow> Inl p | Inr ok \<Rightarrow> Inr (next_addr s, ok)) \<and>
         receiver (snd (regexGroups_heap (hl_ItemRegex pl) itemText s)) = receiver s \<and>
         next_addr (snd (regexGroups_heap (hl_ItemRegex pl) itemText s)) = Suc (next_addr s) \<and>
         (\<forall>b. objects (snd (regexGroups_heap (hl_ItemRegex pl) itemText s)) b =
                (if b = next_addr s then Some m else objects s b))"
      by blast
    define m' where "m' = (case hl_CleanItem pl of None \<Rightarrow> m | Some clean \<Rightarrow> clean m)"
    let ?out = "case outg of
        Inl p \<Rightarrow> Inl p
      | Inr ok \<Rightarrow>
          if \<not> ok then Inr (Some (NoMatch (hl_Name pl @ '' - item '' @ itoa i) itemText), None)
          else (case out' of
                  Inl p \<Rightarrow> Inl p
                | Inr (err, shape) \<Rightarrow>
                    Inr (err, case shape of None \<Rightarrow> None
                              | Some contents \<Rightarrow> Some (Some m' # contents)))"
    have "\<forall>s items. receiver s = pl \<longrightarrow> (\<forall>b \<in> set items. b < next_addr s) \<longrightarrow>
       list_run listName ?out items s
         (PatternList_loop_heap listName i (itemText # itemsTexts) items s)"
    proof (intro allI impI)
      fix s :: "HeapPatternList heap_state" and items
      assume r: "receiver s = pl" and old: "\<forall>b \<in> set items. b < next_addr s"
      define s1 where "s1 = snd (regexGroups_heap (hl_ItemRegex pl) itemText s)"
      have g: "regexGroups_heap (hl_ItemRegex pl) itemText s =
          (case outg of Inl p \<Rightarrow> Inl p | Inr ok \<Rightarrow> Inr (next_addr s, ok), s1)"
        using G [of s] unfolding s1_def by (metis prod.collapse)
      have r1: "receiver s1 = pl" "next_addr s1 = Suc (next_addr s)"
        "\<And>b. objects s1 b = (if b = next_addr s then Some m else objects s b)"
        using G [of s] r unfolding s1_def by simp_all
      have u1: "untouched s s1"
        by (rule untouchedI) (simp_all add: r1 r)
      let ?run = "PatternList_loop_heap listName i (itemText # itemsTexts) items s"
      show "list_run listName ?out items s ?run"
      proof (cases outg)
        case (Inl p)
        have run: "?run = (Inl p, s1)"
          using False Inl by (simp add: r g)
        show ?thesis
          unfolding run using Inl u1 by (simp add: list_run_panic)
      next
        case (Inr ok)
        show ?thesis
        proof (cases ok)
          case no: False
          define s2 where "s2 = snd (make_Fields s1)"
          have mf: "make_Fields s1 = (Suc (next_addr s), s2)"
            by (simp add: s2_def make_Fields_def r1)
          have r2: "receiver s2 = pl" "next_addr s2 = Suc (Suc (next_addr s))"
            "\<And>b. objects s2 b = (if b = Suc (next_addr s) then Some Map.empty else objects s1 b)"
            by (simp_all add: s2_def make_Fields_receiver make_Fields_next make_Fields_objects r1)
          have u2: "untouched s s2"
            by (rule untouchedI) (simp_all add: r2 r1 r)
          have run: "?run =
              (Inr (Suc (next_addr s),
                    Some (NoMatch (hl_Name pl @ '' - item '' @ itoa i) itemText)), s2)"
            using False Inr no by (simp add: r g r1 mf)
          have "list_run listName
              (Inr (Some (NoMatch (hl_Name pl @ '' - item '' @ itoa i) itemText), None)) items s ?run"
            unfolding run
            by (rule list_run_empty [where a = "Suc (next_addr s)"])
               (simp_all add: u2 new_in_def r2)
          then show ?thesis using Inr no by simp
        next
          case yes: True
          define s2 where "s2 =
              (case hl_CleanItem pl of None \<Rightarrow> s1 | Some clean \<Rightarrow> call_clean clean (next_addr s) s1)"
          have r2: "receiver s2 = pl" "next_addr s2 = Suc (next_addr s)"
            "\<And>b. objects s2 b = (if b = next_addr s then Some m' else objects s b)"
            by (simp_all add: s2_def m'_def call_clean_receiver call_clean_next call_clean_objects r1
                  split: option.split)
          have u2: "untouched s s2"
            by (rule untouchedI) (simp_all add: r2 r)
          let ?rest = "PatternList_loop_heap listName (Suc i) itemsTexts (items @ [next_addr s]) s2"
          have run: "?run = ?rest"
            using False Inr yes by (simp add: r g r1 s2_def)
          have old2: "\<forall>b \<in> set (items @ [next_addr s]). b < next_addr s2"
            using old by (auto simp: r2)
          note rest = IH [OF r2(1) old2]
          have u3: "untouched s2 (snd ?rest)" using rest by (rule list_run_untouched)
          have u: "untouched s (snd ?rest)" using u2 u3 by (rule untouched_trans)
          have le: "next_addr s \<le> next_addr s2" by (simp add: r2)
          have a_new: "new_in s (snd ?rest) (next_addr s)"
            using u3 by (simp add: new_in_def untouched_def r2)
          have a_obj: "objects (snd ?rest) (next_addr s) = Some m'"
            using u3 by (simp add: untouched_def r2)
          from rest show ?thesis
          proof (cases rule: list_run_cases)
            case (panic p)
            have "list_run listName (Inl p) items s ?rest"
              using u panic(2) by (rule list_run_panic)
            then show ?thesis unfolding run using Inr yes panic(1) by simp
          next
            case (empty err a)
            have "list_run listName (Inr (err, None)) items s ?rest"
              using u empty(2) new_in_earlier [OF empty(3) le] empty(4) by (rule list_run_empty)
            then show ?thesis unfolding run using Inr yes empty(1) by simp
          next
            case (slice err contents a new)
            have obj: "objects (snd ?rest) a =
                Some [listName \<mapsto> RFieldsSlice (items @ (next_addr s # new))]"
              using slice(4) by simp
            have news: "\<forall>b \<in> set (next_addr s # new). new_in s (snd ?rest) b"
              using slice(5) a_new le by (auto intro: new_in_earlier)
            have cs: "map (objects (snd ?rest)) (next_addr s # new) = Some m' # contents"
              using slice(6) a_obj by simp
            have "list_run listName (Inr (err, Some (Some m' # contents))) items s ?rest"
              using u slice(2) new_in_earlier [OF slice(3) le] obj news cs by (rule list_run_slice)
            then show ?thesis unfolding run using Inr yes slice(1) by simp
          qed
        qed
      qed
    qed
    then show ?thesis by (rule exI)
  qed
qed

lemma PatternList_Search_heap_run:
  "\<exists>listName out. \<forall>s. receiver s = pl \<longrightarrow>
     list_run listName out [] s (PatternList_Search_heap content s)"
proof (cases "MatchString (hl_ListRegex pl) content")
  case False
  let ?err = "if hl_Optional pl then None
              else Some (NoMatch (hl_Name pl @ '' - list regex'') content)"
  have "\<forall>s. receiver s = pl \<longrightarrow>
     list_run [] (Inr (?err, None)) [] s (PatternList_Search_heap content s)"
  proof (intro allI impI)
    fix s :: "HeapPatternList heap_state"
    assume r: "receiver s = pl"
    define s1 where "s1 = snd (make_Fields s)"
    have mf: "make_Fields s = (next_addr s, s1)"
      by (simp add: s1_def make_Fields_def)
    have r1: "next_addr s1 = Suc (next_addr s)" "objects s1 (next_addr s) = Some Map.empty"
      by (simp_all add: s1_def make_Fields_next make_Fields_objects)
    have u: "untouched s s1"
      unfolding s1_def by (rule untouched_make_Fields)
    have run: "PatternList_Search_heap content s = (Inr (next_addr s, ?err), s1)"
      using False by (simp add: PatternList_Search_heap_def r mf)
    show "list_run [] (Inr (?err, None)) [] s (PatternList_Search_heap content s)"
      unfolding run
      by (rule list_run_empty [where a = "next_addr s"]) (simp_all add: u new_in_def r1)
  qed
  then show ?thesis by (intro exI)
next
  case True
  let ?names = "SubexpNames (hl_ListRegex pl)"
  let ?ms = "case FindStringSubmatch (hl_ListRegex pl) content of None \<Rightarrow> [] | Some m \<Rightarrow> m"
  show ?thesis
  proof (cases "1 < length ?names \<and> 1 < length ?ms")
    case False
    have "\<forall>s. receiver s = pl \<longrightarrow>
       list_run [] (Inl IndexOutOfRange) [] s (PatternList_Search_heap content s)"
    proof (intro allI impI)
      fix s :: "HeapPatternList heap_state"
      assume r: "receiver s = pl"
      have run: "PatternList_Search_heap content s = (Inl IndexOutOfRange, s)"
        using True False by (auto simp: PatternList_Search_heap_def r index_def)
      show "list_run [] (Inl IndexOutOfRange) [] s (PatternList_Search_heap content s)"
        unfolding run by (rule list_run_panic) (simp_all add: untouched_refl)
    qed
    then show ?thesis by (intro exI)
  next
    case ok: True
    let ?texts = "Split (hl_SplitRegex pl) (?ms ! 1)"
    from PatternList_loop_heap_run [of pl "?names ! 1" 0 ?texts] obtain out where L:
      "\<And>s items. receiver s = pl \<Longrightarrow> (\<forall>b \<in> set items. b < next_addr s) \<Longrightarrow>
         list_run (?names ! 1) out items s (PatternList_loop_heap (?names ! 1) 0 ?texts items s)"
      by blast
    have "\<forall>s. receiver s = pl \<longrightarrow>
       list_run (?names ! 1) out [] s (PatternList_Search_heap content s)"
    proof (intro allI impI)
      fix s :: "HeapPatternList heap_state"
      assume r: "receiver s = pl"
      have run: "PatternList_Search_heap content s =
          PatternList_loop_heap (?names ! 1) 0 ?texts [] s"
        using True ok by (simp add: PatternList_Search_heap_def r index_def)
      show "list_run (?names ! 1) out [] s (PatternList_Search_heap content s)"
        unfolding run using r by (rule L) simp
    qed
    then show ?thesis by (intro exI)
  qed
qed

lemma see_Fields_same_object:
  "objects s a = objects s b \<Longrightarrow> see_Fields s a = see_Fields s b"
  by (simp add: see_Fields_def)

lemma list_run_result_addr:
  assumes "list_run listName out items s run"
  shows "result_addr (fst run) = None \<or>
         (\<exists>a. result_addr (fst run) = Some a \<and> new_in s (snd run) a)"
  using assms by (cases rule: list_run_cases) simp_all


lemma group_run_cases:
  assumes "group_run out s run"
  obtains (panic) p where "out = Inl p" "fst run = Inl p"
  | (returned) err m a where "out = Inr (err, m)" "fst run = Inr (a, err)" "new_in s (snd run) a"
      "objects (snd run) a = Some m"
proof (cases out)
  case (Inl p)
  with assms have "fst run = Inl p" by (simp add: group_run_def)
  with Inl show ?thesis by (rule panic)
next
  case (Inr em)
  obtain err m where em: "em = (err, m)" by (cases em)
  with assms Inr have "\<exists>a. fst run = Inr (a, err) \<and> new_in s (snd run) a \<and> objects (snd run) a = Some m"
    by (simp add: group_run_def)
  then obtain a where "fst run = Inr (a, err)" "new_in s (snd run) a" "objects (snd run) a = Some m"
    by (elim exE conjE)
  with Inr em show ?thesis by (intro returned) simp_all
qed

lemma group_run_untouched: "group_run out s run \<Longrightarrow> untouched s (snd run)"
  by (simp add: group_run_def)

lemma group_run_result_addr:
  assumes "group_run out s run"
  shows "result_addr (fst run) = None \<or>
         (\<exists>a. result_addr (fst run) = Some a \<and> new_in s (snd run) a)"
  using assms by (cases rule: group_run_cases) simp_all

lemma new_addresses_differ:
  assumes "result_addr r1 = None \<or> (\<exists>a. result_addr r1 = Some a \<and> new_in s s1 a)"
    and "result_addr r2 = None \<or> (\<exists>a. result_addr r2 = Some a \<and> new_in s1 s2 a)"
  shows "result_addr r1 = None \<or> result_addr r1 \<noteq> result_addr r2"
proof (cases "result_addr r1")
  case None
  then show ?thesis by simp
next
  case (Some a)
  with assms(1) have a: "a < next_addr s1" by (simp add: new_in_def)
  show ?thesis
  proof (cases "result_addr r2")
    case None
    with Some show ?thesis by simp
  next
    case (Some b)
    with assms(2) have "next_addr s1 \<le> b" by (simp add: new_in_def)
    with a \<open>result_addr r1 = Some a\<close> Some show ?thesis by simp
  qed
qed

lemma see_Fields_empty: "objects s a = Some Map.empty \<Longrightarrow> see_Fields s a = Some Map.empty"
  by (simp add: see_Fields_def)

lemma see_Fields_slice:
  assumes "objects s a = Some [key \<mapsto> RFieldsSlice new]"
  shows "see_Fields s a = Some [key \<mapsto> SeenSlice (map (objects s) new)]"
proof -
  have "(\<lambda>k. case [key \<mapsto> RFieldsSlice new] k of None \<Rightarrow> None | Some v \<Rightarrow> Some (see_value s v)) =
      [key \<mapsto> SeenSlice (map (objects s) new)]"
  proof
    fix k
    show "(case [key \<mapsto> RFieldsSlice new] k of None \<Rightarrow> None | Some v \<Rightarrow> Some (see_value s v)) =
        [key \<mapsto> SeenSlice (map (objects s) new)] k"
      by (cases "k = key") simp_all
  qed
  then show ?thesis using assms by (simp only: see_Fields_def option.case)
qed

lemma untouched_object: "untouched s s' \<Longrightarrow> a < next_addr s \<Longrightarrow> objects s' a = objects s a"
  by (simp add: untouched_def)

lemma seen_list_run:
  assumes "list_run listName out [] s run" and "untouched (snd run) s'"
  shows "see_result s' (fst run) = seen_list_outcome listName out"
  using assms(1)
proof (cases rule: list_run_cases)
  case (panic p)
  then show ?thesis by simp
next
  case (empty err a)
  have "a < next_addr (snd run)" using empty(3) by (simp add: new_in_def)
  then have "objects s' a = Some Map.empty"
    using untouched_object [OF assms(2)] empty(4) by simp
  then have "see_Fields s' a = Some Map.empty" by (rule see_Fields_empty)
  then show ?thesis using empty(1,2) by simp
next
  case (slice err contents a new)
  have "a < next_addr (snd run)" using slice(3) by (simp add: new_in_def)
  then have "objects s' a = objects (snd run) a"
    by (rule untouched_object [OF assms(2)])
  then have obj: "objects s' a = Some [listName \<mapsto> RFieldsSlice new]"
    using slice(4) by simp
  have "map (objects s') new = map (objects (snd run)) new"
  proof (rule map_cong [OF refl])
    fix b assume "b \<in> set new"
    with slice(5) have "b < next_addr (snd run)" by (simp add: new_in_def)
    then show "objects s' b = objects (snd run) b"
      by (rule untouched_object [OF assms(2)])
  qed
  then have cs: "map (objects s') new = contents" using slice(6) by simp
  have "see_Fields s' a = Some [listName \<mapsto> SeenSlice contents]"
    using see_Fields_slice [OF obj] unfolding cs .
  then show ?thesis using slice(1,2) by simp
qed

lemma seen_group_runs:
  assumes "group_run out s run" and "untouched (snd run) s'" and "group_run out s' run'"
  shows "see_result (snd run') (fst run) = see_result (snd run') (fst run')"
  using assms(1)
proof (cases rule: group_run_cases)
  case (panic p)
  from assms(3) panic(1) have "fst run' = Inl p" by (simp add: group_run_def)
  with panic(2) show ?thesis by simp
next
  case (returned err m a)
  from assms(3) show ?thesis
  proof (cases rule: group_run_cases)
    case (panic p)
    with returned(1) show ?thesis by simp
  next
    case inner: (returned err' m' a')
    from returned(1) inner(1) have eq: "err' = err" "m' = m" by simp_all
    have u: "untouched (snd run) (snd run')"
      using assms(2) group_run_untouched [OF assms(3)] by (rule untouched_trans)
    have "a < next_addr (snd run)" using returned(3) by (simp add: new_in_def)
    then have "objects (snd run') a = objects (snd run) a"
      by (rule untouched_object [OF u])
    then have "objects (snd run') a = objects (snd run') a'"
      using returned(4) inner(4) eq by simp
    then have "see_Fields (snd run') a = see_Fields (snd run') a'"
      by (rule see_Fields_same_object)
    then show ?thesis using returned(2) inner(2) eq by simp
  qed
qed

lemma object_group_run:
  assumes "group_run out s run" and "untouched (snd run) s'"
  shows "object_of_result s' (fst run) = object_group_outcome out"
  using assms(1)
proof (cases rule: group_run_cases)
  case (panic p)
  then show ?thesis by simp
next
  case (returned err m a)
  have "a < next_addr (snd run)" using returned(3) by (simp add: new_in_def)
  then have "objects s' a = objects (snd run) a"
    by (rule untouched_object [OF assms(2)])
  then show ?thesis using returned(1,2,4) by simp
qed

lemma search_twice_parts:
  "search_twice search content s =
     ((fst (search content s), fst (search content (snd (search content s)))),
      snd (search content (snd (search content s))))"
  by (simp add: search_twice_def case_prod_beta)

text \<open>
  The statement of the claim below is a property of the two \<open>Search\<close> methods, not of
  every method over the state: a method that counts its calls in the state returns
  two different results.
\<close>

lemma search_twice_of_a_method_with_state:
  "\<exists>search :: string \<Rightarrow> unit heap_state \<Rightarrow> unit heap_search.
     \<not> (case search_twice search [] (empty_heap ()) of
            ((r1, r2), s2) \<Rightarrow> object_of_result s2 r1 = object_of_result s2 r2)"
proof
  let ?search = "\<lambda>(content :: string) (s :: unit heap_state).
      (if next_addr s = 0 then Inl IndexOutOfRange else Inl InterfaceConversion,
       s\<lparr>next_addr := Suc (next_addr s)\<rparr>) :: unit heap_search"
  show "\<not> (case search_twice ?search [] (empty_heap ()) of
            ((r1, r2), s2) \<Rightarrow> object_of_result s2 r1 = object_of_result s2 r2)"
    by (simp add: search_twice_def empty_heap_def)
qed

text \<open>
  Claim C9. For a \<open>PatternGroup\<close> or a \<open>PatternList\<close>, whose clean transform is absent or
  a function of the content of the map it receives, and for every content and every
  state, two calls of \<open>Search\<close> one after the other return identical Field Maps: after
  the second call the map object of the first result and the one of the second have
  the same content (for the list, the same key with item maps of the same contents
  in the same order), the two errors are equal and so are the two panics. The two
  calls leave the receiver struct and every map object that existed before them as
  they were, and the two results are different map objects. More generally the
  result of a call is the same in any two states with the same receiver struct, so
  nothing that an earlier call left in the state reaches a later one.
\<close>

theorem Search_twice_same_result:
  "(case search_twice PatternGroup_Search_heap content s of
      ((r1, r2), s2) \<Rightarrow>
        object_of_result s2 r1 = object_of_result s2 r2 \<and> untouched s s2 \<and>
        (result_addr r1 = None \<or> result_addr r1 \<noteq> result_addr r2)) \<and>
   (\<forall>s'. receiver s' = receiver s \<longrightarrow>
      object_of_result (snd (PatternGroup_Search_heap content s'))
        (fst (PatternGroup_Search_heap content s')) =
      object_of_result (snd (PatternGroup_Search_heap content s))
        (fst (PatternGroup_Search_heap content s))) \<and>
   (case search_twice PatternList_Search_heap content t of
      ((r1, r2), t2) \<Rightarrow>
        see_result t2 r1 = see_result t2 r2 \<and> untouched t t2 \<and>
        (result_addr r1 = None \<or> result_addr r1 \<noteq> result_addr r2)) \<and>
   (\<forall>t'. receiver t' = receiver t \<longrightarrow>
      see_result (snd (PatternList_Search_heap content t'))
        (fst (PatternList_Search_heap content t')) =
      see_result (snd (PatternList_Search_heap content t))
        (fst (PatternList_Search_heap content t)))"
proof -
  from PatternGroup_Search_heap_run [of "receiver s" content] obtain out where G:
    "\<And>s'. receiver s' = receiver s \<Longrightarrow> group_run out s' (PatternGroup_Search_heap content s')"
    by blast
  let ?run1 = "PatternGroup_Search_heap content s"
  let ?run2 = "PatternGroup_Search_heap content (snd ?run1)"
  have g1: "group_run out s ?run1" by (rule G) simp
  have u1: "untouched s (snd ?run1)" using g1 by (rule group_run_untouched)
  have g2: "group_run out (snd ?run1) ?run2"
    using u1 by (intro G) (simp add: untouched_def)
  have u2: "untouched (snd ?run1) (snd ?run2)" using g2 by (rule group_run_untouched)
  have o1: "object_of_result (snd ?run2) (fst ?run1) = object_group_outcome out"
    using g1 u2 by (rule object_group_run)
  have o2: "object_of_result (snd ?run2) (fst ?run2) = object_group_outcome out"
    using g2 untouched_refl by (rule object_group_run)
  have a: "result_addr (fst ?run1) = None \<or> result_addr (fst ?run1) \<noteq> result_addr (fst ?run2)"
    using group_run_result_addr [OF g1] group_run_result_addr [OF g2]
    by (rule new_addresses_differ)
  have group_twice: "case search_twice PatternGroup_Search_heap content s of
      ((r1, r2), s2) \<Rightarrow>
        object_of_result s2 r1 = object_of_result s2 r2 \<and> untouched s s2 \<and>
        (result_addr r1 = None \<or> result_addr r1 \<noteq> result_addr r2)"
    unfolding search_twice_parts using o1 o2 a untouched_trans [OF u1 u2] by simp
  have group_any: "\<forall>s'. receiver s' = receiver s \<longrightarrow>
      object_of_result (snd (PatternGroup_Search_heap content s'))
        (fst (PatternGroup_Search_heap content s')) =
      object_of_result (snd ?run1) (fst ?run1)"
  proof (intro allI impI)
    fix s' :: "HeapPatternGroup heap_state"
    assume "receiver s' = receiver s"
    then have "group_run out s' (PatternGroup_Search_heap content s')" by (rule G)
    then have "object_of_result (snd (PatternGroup_Search_heap content s'))
        (fst (PatternGroup_Search_heap content s')) = object_group_outcome out"
      using untouched_refl by (rule object_group_run)
    moreover have "object_of_result (snd ?run1) (fst ?run1) = object_group_outcome out"
      using g1 untouched_refl by (rule object_group_run)
    ultimately show "object_of_result (snd (PatternGroup_Search_heap content s'))
        (fst (PatternGroup_Search_heap content s')) =
      object_of_result (snd ?run1) (fst ?run1)"
      by simp
  qed
  from PatternList_Search_heap_run [of "receiver t" content] obtain listName lout where L:
    "\<And>t'. receiver t' = receiver t \<Longrightarrow>
       list_run listName lout [] t' (PatternList_Search_heap content t')"
    by blast
  let ?lrun1 = "PatternList_Search_heap content t"
  let ?lrun2 = "PatternList_Search_heap content (snd ?lrun1)"
  have l1: "list_run listName lout [] t ?lrun1" by (rule L) simp
  have v1: "untouched t (snd ?lrun1)" using l1 by (rule list_run_untouched)
  have l2: "list_run listName lout [] (snd ?lrun1) ?lrun2"
    using v1 by (intro L) (simp add: untouched_def)
  have v2: "untouched (snd ?lrun1) (snd ?lrun2)" using l2 by (rule list_run_untouched)
  have p1: "see_result (snd ?lrun2) (fst ?lrun1) = seen_list_outcome listName lout"
    using l1 v2 by (rule seen_list_run)
  have p2: "see_result (snd ?lrun2) (fst ?lrun2) = seen_list_outcome listName lout"
    using l2 untouched_refl by (rule seen_list_run)
  have b: "result_addr (fst ?lrun1) = None \<or> result_addr (fst ?lrun1) \<noteq> result_addr (fst ?lrun2)"
    using list_run_result_addr [OF l1] list_run_result_addr [OF l2]
    by (rule new_addresses_differ)
  have list_twice: "case search_twice PatternList_Search_heap content t of
      ((r1, r2), t2) \<Rightarrow>
        see_result t2 r1 = see_result t2 r2 \<and> untouched t t2 \<and>
        (result_addr r1 = None \<or> result_addr r1 \<noteq> result_addr r2)"
    unfolding search_twice_parts using p1 p2 b untouched_trans [OF v1 v2] by simp
  have list_any: "\<forall>t'. receiver t' = receiver t \<longrightarrow>
      see_result (snd (PatternList_Search_heap content t'))
        (fst (PatternList_Search_heap content t')) =
      see_result (snd ?lrun1) (fst ?lrun1)"
  proof (intro allI impI)
    fix t' :: "HeapPatternList heap_state"
    assume "receiver t' = receiver t"
    then have "list_run listName lout [] t' (PatternList_Search_heap content t')" by (rule L)
    then have "see_result (snd (PatternList_Search_heap content t'))
        (fst (PatternList_Search_heap content t')) = seen_list_outcome listName lout"
      using untouched_refl by (rule seen_list_run)
    moreover have "see_result (snd ?lrun1) (fst ?lrun1) = seen_list_outcome listName lout"
      using l1 untouched_refl by (rule seen_list_run)
    ultimately show "see_result (snd (PatternList_Search_heap content t'))
        (fst (PatternList_Search_heap content t')) =
      see_result (snd ?lrun1) (fst ?lrun1)"
      by simp
  qed
  from group_twice group_any list_twice list_any show ?thesis by (intro conjI)
qed

lemma example_regexGroups_heap:
  "take 2 x = ''- '' \<Longrightarrow> CHR 0x0A \<notin> set x \<Longrightarrow>
   regexGroups_heap re_item x s =
     (Inr (next_addr s, True),
      assign_key (next_addr s) ''v'' (RString (drop 2 x)) (snd (make_Fields s)))"
  by (simp add: regexGroups_heap_def MatchString_def re_item_def make_Fields_def)

lemma example_group_second:
  "fst (fst (search_twice PatternGroup_Search_heap ''- a'' (empty_heap example_heap_group))) = Inr (0, None) \<and>
   snd (fst (search_twice PatternGroup_Search_heap ''- a'' (empty_heap example_heap_group))) = Inr (1, None) \<and>
   objects (snd (search_twice PatternGroup_Search_heap ''- a'' (empty_heap example_heap_group))) 1 =
     Some [''v'' \<mapsto> RString ''a'']"
  by (simp add: search_twice_parts PatternGroup_Search_heap_def example_regexGroups_heap
        example_heap_group_def empty_heap_def assign_key_receiver assign_key_next assign_key_objects
        make_Fields_receiver make_Fields_next make_Fields_objects)

lemma example_list_run:
  assumes "receiver s = example_heap_list"
  shows "fst (PatternList_Search_heap ''L:- a\<newline>- b'' s) = Inr (next_addr s + 2, None) \<and>
     receiver (snd (PatternList_Search_heap ''L:- a\<newline>- b'' s)) = example_heap_list \<and>
     next_addr (snd (PatternList_Search_heap ''L:- a\<newline>- b'' s)) = next_addr s + 3 \<and>
     objects (snd (PatternList_Search_heap ''L:- a\<newline>- b'' s)) (next_addr s + 2) =
       Some [''items'' \<mapsto> RFieldsSlice [next_addr s, next_addr s + 1]] \<and>
     objects (snd (PatternList_Search_heap ''L:- a\<newline>- b'' s)) (next_addr s) =
       Some [''v'' \<mapsto> RString ''a''] \<and>
     objects (snd (PatternList_Search_heap ''L:- a\<newline>- b'' s)) (next_addr s + 1) =
       Some [''v'' \<mapsto> RString ''b'']"
proof -
  have first: "PatternList_Search_heap ''L:- a\<newline>- b'' s =
      PatternList_loop_heap ''items'' 0 [''- a'', ''- b''] [] s"
    using assms
    by (simp add: PatternList_Search_heap_def example_heap_list_def MatchString_def index_def
          re_list_def re_newline_def)
  have item: "hl_ItemRegex example_heap_list = re_item" "hl_CleanItem example_heap_list = None"
    by (simp_all add: example_heap_list_def)
  show ?thesis
    unfolding first
    by (simp add: assms item example_regexGroups_heap make_Fields_def assign_key_def)
qed

lemma example_list_second:
  "snd (fst (search_twice PatternList_Search_heap ''L:- a\<newline>- b'' (empty_heap example_heap_list))) =
     Inr (5, None) \<and>
   see_Fields (snd (search_twice PatternList_Search_heap ''L:- a\<newline>- b''
                      (empty_heap example_heap_list))) 5 =
     Some [''items'' \<mapsto> SeenSlice [Some [''v'' \<mapsto> RString ''a''], Some [''v'' \<mapsto> RString ''b'']]]"
proof -
  let ?s0 = "empty_heap example_heap_list :: HeapPatternList heap_state"
  let ?s1 = "snd (PatternList_Search_heap ''L:- a\<newline>- b'' ?s0)"
  let ?s2 = "snd (PatternList_Search_heap ''L:- a\<newline>- b'' ?s1)"
  have r0: "receiver ?s0 = example_heap_list" "next_addr ?s0 = 0"
    by (simp_all add: empty_heap_def)
  from example_list_run [OF r0(1)]
  have r1: "receiver ?s1 = example_heap_list" "next_addr ?s1 = 3"
    by (simp_all add: r0(2))
  from example_list_run [OF r1(1)]
  have run2: "fst (PatternList_Search_heap ''L:- a\<newline>- b'' ?s1) = Inr (5, None)"
    "objects ?s2 5 = Some [''items'' \<mapsto> RFieldsSlice [3, 4]]"
    "objects ?s2 3 = Some [''v'' \<mapsto> RString ''a'']"
    "objects ?s2 4 = Some [''v'' \<mapsto> RString ''b'']"
    by (simp_all add: r1(2))
  have "see_Fields ?s2 5 = Some [''items'' \<mapsto> SeenSlice (map (objects ?s2) [3, 4])]"
    using run2(2) by (rule see_Fields_slice)
  then have "see_Fields ?s2 5 =
      Some [''items'' \<mapsto> SeenSlice [Some [''v'' \<mapsto> RString ''a''], Some [''v'' \<mapsto> RString ''b'']]]"
    by (simp add: run2(3,4))
  then show ?thesis
    unfolding search_twice_parts using run2(1) by simp
qed

theorem Search_twice_same_result_witness:
  "object_of_result
     (snd (search_twice PatternGroup_Search_heap ''- a'' (empty_heap example_heap_group)))
     (fst (fst (search_twice PatternGroup_Search_heap ''- a'' (empty_heap example_heap_group)))) =
     Inr (Some [''v'' \<mapsto> RString ''a''], None) \<and>
   object_of_result
     (snd (search_twice PatternGroup_Search_heap ''- a'' (empty_heap example_heap_group)))
     (snd (fst (search_twice PatternGroup_Search_heap ''- a'' (empty_heap example_heap_group)))) =
     Inr (Some [''v'' \<mapsto> RString ''a''], None) \<and>
   see_result
     (snd (search_twice PatternList_Search_heap ''L:- a\<newline>- b'' (empty_heap example_heap_list)))
     (fst (fst (search_twice PatternList_Search_heap ''L:- a\<newline>- b'' (empty_heap example_heap_list)))) =
     Inr (Some [''items'' \<mapsto> SeenSlice [Some [''v'' \<mapsto> RString ''a''], Some [''v'' \<mapsto> RString ''b'']]],
          None) \<and>
   see_result
     (snd (search_twice PatternList_Search_heap ''L:- a\<newline>- b'' (empty_heap example_heap_list)))
     (snd (fst (search_twice PatternList_Search_heap ''L:- a\<newline>- b'' (empty_heap example_heap_list)))) =
     Inr (Some [''items'' \<mapsto> SeenSlice [Some [''v'' \<mapsto> RString ''a''], Some [''v'' \<mapsto> RString ''b'']]],
          None)"
proof -
  let ?G = "search_twice PatternGroup_Search_heap ''- a'' (empty_heap example_heap_group)"
  let ?L = "search_twice PatternList_Search_heap ''L:- a\<newline>- b'' (empty_heap example_heap_list)"
  have g: "object_of_result (snd ?G) (fst (fst ?G)) = object_of_result (snd ?G) (snd (fst ?G))"
    using Search_twice_same_result
      [where content = "''- a''" and s = "empty_heap example_heap_group"
         and t = "empty_heap example_heap_list", THEN conjunct1]
    by (simp add: case_prod_beta)
  have g2: "object_of_result (snd ?G) (snd (fst ?G)) = Inr (Some [''v'' \<mapsto> RString ''a''], None)"
    using example_group_second by simp
  have l: "see_result (snd ?L) (fst (fst ?L)) = see_result (snd ?L) (snd (fst ?L))"
    using Search_twice_same_result
      [where content = "''L:- a\<newline>- b''" and s = "empty_heap example_heap_group"
         and t = "empty_heap example_heap_list", THEN conjunct2, THEN conjunct2, THEN conjunct1]
    by (simp add: case_prod_beta)
  have l2: "see_result (snd ?L) (snd (fst ?L)) =
      Inr (Some [''items'' \<mapsto> SeenSlice [Some [''v'' \<mapsto> RString ''a''], Some [''v'' \<mapsto> RString ''b'']]],
           None)"
    using example_list_second by simp
  show ?thesis
    unfolding g l unfolding g2 l2 by (intro conjI refl)
qed

end
